theory Spec2Isabelle
  imports Main
begin

section \<open>Reference-count insertion for an SSA control-flow graph\<close>

text \<open>
  A shallow embedding of \<^verbatim>\<open>src/codegen/irgen/refcounts.cpp\<close>: the annotation store
  (\<^verbatim>\<open>RefcountTracker\<close>), the insertion-ordered map the solver keeps its counts in
  (\<^verbatim>\<open>OrderedMap\<close>), one visit of the backward solver to a basic block
  (the body of the worklist loop of \<^verbatim>\<open>RefcountTracker::addRefcounts\<close>), the search for
  the instruction an edge insertion goes to (\<^verbatim>\<open>findInsertionPoint\<close>) and the emission
  of a decrement (\<^verbatim>\<open>addDecrefs\<close>).

  Conventions. A pointer is a natural number, the null pointer is \<open>None\<close> of an option.
  The counts are C \<^verbatim>\<open>int\<close>s; the solver only ever adds the length of a
  \<^verbatim>\<open>refs_consumed\<close> sequence to them and subtracts two counts of the same sign, so they
  are embedded as HOL integers. \<^verbatim>\<open>assert\<close> is embedded as the build with assertions
  has it: a failed assertion ends the run with an error that carries the line of the
  assertion in the source file. Dereferencing a null pointer or a past-the-end iterator
  is an error of its own.
\<close>

subsection \<open>Errors\<close>

datatype error =
    AssertionFailed nat        \<comment> \<open>\<^verbatim>\<open>assert\<close> or \<^verbatim>\<open>ASSERT\<close> at the given source line\<close>
  | ReleaseAssertFailed nat    \<comment> \<open>\<^verbatim>\<open>RELEASE_ASSERT\<close> at the given source line (every build)\<close>
  | Aborted nat                \<comment> \<open>\<^verbatim>\<open>abort()\<close> at the given source line\<close>
  | InvalidDeref nat           \<comment> \<open>a null pointer or an end iterator is dereferenced\<close>
  | KilledBySIGTRAP nat        \<comment> \<open>\<^verbatim>\<open>raise(SIGTRAP)\<close> with the signal's default action\<close>

definition then_do :: "error + 'a \<Rightarrow> ('a \<Rightarrow> error + 'b) \<Rightarrow> error + 'b" where
  "then_do r f = (case r of Inl e \<Rightarrow> Inl e | Inr x \<Rightarrow> f x)"

definition assert_at :: "nat \<Rightarrow> bool \<Rightarrow> error + unit" where
  "assert_at line c = (if c then Inr () else Inl (AssertionFailed line))"

subsection \<open>Values of the intermediate representation\<close>

text \<open>
  An \<^verbatim>\<open>llvm::Value*\<close> is an address together with the dynamic class of the object it
  points to, which is what \<^verbatim>\<open>llvm::isa\<close> reads. Instructions are values; a basic block
  is addressed by a number of its own.
\<close>

datatype opcode =
    PHINode | AllocaInst | LandingPadInst | CallInst | CastInst | OtherInst
  | BranchInst | InvokeInst | UnreachableInst | OtherTerminator

datatype vclass =
    UndefValue | ConstantPointerNull | GlobalVariable | OtherConstant
  | Argument | Instruction opcode

datatype val = Val (addr: nat) (cls: vclass)

type_synonym block = nat

definition isa_UndefValue :: "val \<Rightarrow> bool" where
  "isa_UndefValue v = (cls v = UndefValue)"

definition isa_ConstantPointerNull :: "val \<Rightarrow> bool" where
  "isa_ConstantPointerNull v = (cls v = ConstantPointerNull)"

definition isa_GlobalVariable :: "val \<Rightarrow> bool" where
  "isa_GlobalVariable v = (cls v = GlobalVariable)"

text \<open>In LLVM undef, the null pointer and global variables are constants as well.\<close>

definition isa_Constant :: "val \<Rightarrow> bool" where
  "isa_Constant v =
     (cls v = UndefValue \<or> cls v = ConstantPointerNull \<or> cls v = GlobalVariable
      \<or> cls v = OtherConstant)"

definition isa_opcode :: "opcode \<Rightarrow> val \<Rightarrow> bool" where
  "isa_opcode oc v = (cls v = Instruction oc)"

definition isa_TerminatorInst :: "val \<Rightarrow> bool" where
  "isa_TerminatorInst v =
     (isa_opcode BranchInst v \<or> isa_opcode InvokeInst v \<or> isa_opcode UnreachableInst v
      \<or> isa_opcode OtherTerminator v)"

subsection \<open>\<^verbatim>\<open>OrderedMap\<close> (lines 425-485)\<close>

text \<open>
  \<^verbatim>\<open>OrderedMap<K, V>\<close> pairs a \<^verbatim>\<open>DenseMap\<close> with the vector \<^verbatim>\<open>order\<close> of its keys in
  the order of their first insertion. The embedding is the list of the entries in that
  order: the keys of the list are \<^verbatim>\<open>order\<close>, and looking a key up in the list is the
  \<^verbatim>\<open>DenseMap\<close>. The class keeps every key once in \<^verbatim>\<open>order\<close> (\<open>OrderedMap_inv\<close>).
  The only instance in the file is \<^verbatim>\<open>BlockMap = OrderedMap<llvm::Value*, int>\<close>.
\<close>

type_synonym 'k OrderedMap = "('k \<times> int) list"

type_synonym BlockMap = "val OrderedMap"

definition OrderedMap_inv :: "'k OrderedMap \<Rightarrow> bool" where
  "OrderedMap_inv m = distinct (map fst m)"

definition OrderedMap_count :: "'k OrderedMap \<Rightarrow> 'k \<Rightarrow> bool" where
  "OrderedMap_count m k = (map_of m k \<noteq> None)"

definition OrderedMap_size :: "'k OrderedMap \<Rightarrow> nat" where
  "OrderedMap_size m = length m"

text \<open>\<^verbatim>\<open>get\<close> dereferences \<^verbatim>\<open>map.find(k)\<close>; \<open>None\<close> is the dereference of \<^verbatim>\<open>end()\<close>.\<close>

definition OrderedMap_get :: "'k OrderedMap \<Rightarrow> 'k \<Rightarrow> int option" where
  "OrderedMap_get m k = map_of m k"

text \<open>
  \<^verbatim>\<open>operator[]\<close> appends a missing key to \<^verbatim>\<open>order\<close> and value-initialises its count:
  \<open>OrderedMap_index\<close> is the map after the access, \<open>OrderedMap_at\<close> the count the
  returned reference reads, \<open>OrderedMap_store\<close> the map after an assignment through it.
\<close>

definition OrderedMap_index :: "'k OrderedMap \<Rightarrow> 'k \<Rightarrow> 'k OrderedMap" where
  "OrderedMap_index m k = (if OrderedMap_count m k then m else m @ [(k, 0)])"

definition OrderedMap_at :: "'k OrderedMap \<Rightarrow> 'k \<Rightarrow> int" where
  "OrderedMap_at m k = (case map_of m k of Some c \<Rightarrow> c | None \<Rightarrow> 0)"

fun OrderedMap_store :: "'k OrderedMap \<Rightarrow> 'k \<Rightarrow> int \<Rightarrow> 'k OrderedMap" where
  "OrderedMap_store [] k c = [(k, c)]"
| "OrderedMap_store (p # ps) k c =
     (if fst p = k then (k, c) # ps else p # OrderedMap_store ps k c)"

definition OrderedMap_clear :: "'k OrderedMap \<Rightarrow> 'k OrderedMap" where
  "OrderedMap_clear m = []"

definition OrderedMap_erase :: "'k OrderedMap \<Rightarrow> 'k \<Rightarrow> error + 'k OrderedMap" where
  "OrderedMap_erase m k =
     then_do (assert_at 452 (OrderedMap_count m k))
       (\<lambda>_. Inr (filter (\<lambda>p. fst p \<noteq> k) m))"

subsection \<open>\<^verbatim>\<open>endingRefsDifferent\<close> (lines 694-704)\<close>

fun endingRefsDifferent_loop :: "BlockMap \<Rightarrow> BlockMap \<Rightarrow> bool" where
  "endingRefsDifferent_loop [] rhs = False"
| "endingRefsDifferent_loop (p # ps) rhs =
     (if \<not> OrderedMap_count rhs (fst p) then True
      else if Some (snd p) \<noteq> OrderedMap_get rhs (fst p) then True
      else endingRefsDifferent_loop ps rhs)"

definition endingRefsDifferent :: "BlockMap \<Rightarrow> BlockMap \<Rightarrow> bool" where
  "endingRefsDifferent lhs rhs =
     (if OrderedMap_size lhs \<noteq> OrderedMap_size rhs then True
      else endingRefsDifferent_loop lhs rhs)"

subsection \<open>\<^verbatim>\<open>SmallOrderedMap\<close> (lines 488-513)\<close>

text \<open>
  A vector of pairs searched from the front. \<^verbatim>\<open>operator[]\<close> appends a missing key with
  a value-initialised count; \<^verbatim>\<open>get\<close> answers 0 for a missing key.
\<close>

type_synonym 'k SmallOrderedMap = "('k \<times> int) list"

fun SmallOrderedMap_add :: "'k SmallOrderedMap \<Rightarrow> 'k \<Rightarrow> int \<Rightarrow> 'k SmallOrderedMap" where
  "SmallOrderedMap_add [] k n = [(k, 0 + n)]"
| "SmallOrderedMap_add (p # ps) k n =
     (if fst p = k then (fst p, snd p + n) # ps else p # SmallOrderedMap_add ps k n)"

definition SmallOrderedMap_index :: "'k SmallOrderedMap \<Rightarrow> 'k \<Rightarrow> 'k SmallOrderedMap" where
  "SmallOrderedMap_index m k = SmallOrderedMap_add m k 0"

fun SmallOrderedMap_get :: "'k SmallOrderedMap \<Rightarrow> 'k \<Rightarrow> int" where
  "SmallOrderedMap_get [] k = 0"
| "SmallOrderedMap_get (p # ps) k = (if fst p = k then snd p else SmallOrderedMap_get ps k)"

subsection \<open>The annotation store\<close>

datatype RefType = UNKNOWN | OWNED | BORROWED

text \<open>
  Modelled from the spec: the declarations of \<^verbatim>\<open>RefcountState\<close> and of the fields of
  \<^verbatim>\<open>RefcountTracker\<close>, which are in a header that is not among the sources. A state is
  a discipline and a nullability flag; a fresh state is \<^verbatim>\<open>UNKNOWN\<close> and not nullable (the
  assertions of \<^verbatim>\<open>setType\<close> and \<^verbatim>\<open>setNullable\<close> on a fresh entry rely on it). The four
  fields are hash containers that the file only ever looks keys up in.
\<close>

record RefcountState =
  reftype :: RefType
  nullable :: bool

record RefcountTracker =
  vars :: "val \<rightharpoonup> RefcountState"
  may_throw :: "val set"
  refs_consumed :: "val \<rightharpoonup> val list"
  refs_used :: "val \<rightharpoonup> val list"

definition vars_count :: "RefcountTracker \<Rightarrow> val \<Rightarrow> bool" where
  "vars_count rt v = (vars rt v \<noteq> None)"

text \<open>\<^verbatim>\<open>DenseMap::lookup\<close> answers a value-initialised state for a missing key.\<close>

definition vars_lookup :: "RefcountTracker \<Rightarrow> val \<Rightarrow> RefcountState" where
  "vars_lookup rt v =
     (case vars rt v of None \<Rightarrow> \<lparr>reftype = UNKNOWN, nullable = False\<rparr> | Some s \<Rightarrow> s)"

definition push_back_at :: "(val \<rightharpoonup> val list) \<Rightarrow> val \<Rightarrow> val \<Rightarrow> (val \<rightharpoonup> val list)" where
  "push_back_at m i v = m(i \<mapsto> (case m i of None \<Rightarrow> [] | Some vs \<Rightarrow> vs) @ [v])"

text \<open>
  \<^verbatim>\<open>refConsumed\<close> and \<^verbatim>\<open>refUsed\<close> (lines 102-118). The assertion reads \<^verbatim>\<open>vars[v]\<close>, which
  would add a fresh \<^verbatim>\<open>UNKNOWN\<close> state for a missing value; the assertion then fails, so a
  call that returns leaves \<^verbatim>\<open>vars\<close> as it was.
\<close>

definition refConsumed :: "RefcountTracker \<Rightarrow> val \<Rightarrow> val \<Rightarrow> error + RefcountTracker" where
  "refConsumed rt v i =
     (if isa_UndefValue v \<or> isa_ConstantPointerNull v then Inr rt
      else then_do (assert_at 106 (reftype (vars_lookup rt v) \<noteq> UNKNOWN))
             (\<lambda>_. Inr (rt\<lparr>refs_consumed := push_back_at (refs_consumed rt) i v\<rparr>)))"

definition refUsed :: "RefcountTracker \<Rightarrow> val \<Rightarrow> val \<Rightarrow> error + RefcountTracker" where
  "refUsed rt v i =
     (if isa_UndefValue v \<or> isa_ConstantPointerNull v then Inr rt
      else then_do (assert_at 115 (reftype (vars_lookup rt v) \<noteq> UNKNOWN))
             (\<lambda>_. Inr (rt\<lparr>refs_used := push_back_at (refs_used rt) i v\<rparr>)))"

text \<open>
  The front end's calls in sequence, from a store that holds no annotation yet; the
  first failed assertion ends the sequence.
\<close>

datatype annotation = Consumed val val | Used val val

fun annotate :: "RefcountTracker \<Rightarrow> annotation \<Rightarrow> error + RefcountTracker" where
  "annotate rt (Consumed v i) = refConsumed rt v i"
| "annotate rt (Used v i) = refUsed rt v i"

fun annotate_all :: "RefcountTracker \<Rightarrow> annotation list \<Rightarrow> error + RefcountTracker" where
  "annotate_all rt [] = Inr rt"
| "annotate_all rt (a # as) = then_do (annotate rt a) (\<lambda>rt'. annotate_all rt' as)"

text \<open>No sequence of consumed or used values holds undef or the null pointer.\<close>

definition no_undef_or_null :: "RefcountTracker \<Rightarrow> bool" where
  "no_undef_or_null rt =
     (\<forall>vs \<in> ran (refs_consumed rt) \<union> ran (refs_used rt).
        \<forall>x \<in> set vs. \<not> isa_UndefValue x \<and> \<not> isa_ConstantPointerNull x)"

subsection \<open>Instructions, blocks and the function\<close>

text \<open>
  An instruction is its value, its value operands and the blocks it names: the
  successors of a branch (two when it is conditional), the normal and the unwind
  destination of an invoke, the incoming blocks of a phi. A function is the order of
  its blocks, the instructions of each, its arguments, and the next address an
  allocation returns.
\<close>

record Inst =
  inst_val :: val
  operands :: "val list"
  inst_blocks :: "block list"

record Function =
  layout :: "block list"
  body :: "block \<Rightarrow> Inst list"
  args :: "val list"
  fresh :: nat

definition getTerminator :: "Inst list \<Rightarrow> Inst option" where
  "getTerminator insts =
     (if insts = [] then None
      else if isa_TerminatorInst (inst_val (last insts)) then Some (last insts)
      else None)"

definition getNextNode :: "Inst list \<Rightarrow> val option" where
  "getNextNode rest = (case rest of [] \<Rightarrow> None | n # _ \<Rightarrow> Some (inst_val n))"

definition getNormalDest :: "Inst \<Rightarrow> block option" where
  "getNormalDest i = (case inst_blocks i of n # _ \<Rightarrow> Some n | [] \<Rightarrow> None)"

definition getUnwindDest :: "Inst \<Rightarrow> block option" where
  "getUnwindDest i = (case inst_blocks i of _ # u # _ \<Rightarrow> Some u | _ \<Rightarrow> None)"

definition front :: "Function \<Rightarrow> block option" where
  "front f = (case layout f of [] \<Rightarrow> None | b # _ \<Rightarrow> Some b)"

text \<open>\<^verbatim>\<open>BBGraph\<close> (lines 516-544): the blocks by index, and the edges as indices.\<close>

record BBGraph =
  bbs :: "block list"
  predecessors :: "nat list list"
  successors :: "nat list list"

subsection \<open>The solver's state (lines 810-840)\<close>

datatype RefOp =
  RefOp (operand: val) (op_nullable: bool) (op_num_refs: int)
        (insertion_inst: "val option") (insertion_bb: "block option")
        (insertion_from_bb: "block option")

record CXXFixup =
  fixup_inst :: val
  to_decref :: "val list"

record RefState =
  been_run :: bool
  starting_refs :: BlockMap
  ending_refs :: BlockMap
  increfs :: "RefOp list"
  decrefs :: "RefOp list"
  cxx_fixups :: "CXXFixup list"

subsection \<open>Merging the successors (lines 900-972)\<close>

text \<open>
  \<open>successor_info\<close> lists, for every successor that has been run, its
  \<^verbatim>\<open>ending_refs\<close> and its index. \<open>tracked_values\<close> collects the keys of these maps in
  the order they are first seen; the \<^verbatim>\<open>DenseSet in_tracked_values\<close> holds the same
  values as the vector, so membership in the vector stands for it.
\<close>

type_synonym successor_info = "(BlockMap \<times> nat) list"

fun collect_tracked :: "val list \<Rightarrow> BlockMap \<Rightarrow> error + val list" where
  "collect_tracked tracked [] = Inr tracked"
| "collect_tracked tracked (p # ps) =
     then_do (assert_at 914 (snd p > 0))
       (\<lambda>_. collect_tracked (if fst p \<in> set tracked then tracked else tracked @ [fst p]) ps)"

fun tracked_values :: "val list \<Rightarrow> successor_info \<Rightarrow> error + val list" where
  "tracked_values tracked [] = Inr tracked"
| "tracked_values tracked (s_info # rest) =
     then_do (collect_tracked tracked (fst s_info)) (\<lambda>tracked'. tracked_values tracked' rest)"

text \<open>The loop of lines 934-944, from \<^verbatim>\<open>min_refs = 1000000000\<close>.\<close>

fun min_refs_loop :: "val \<Rightarrow> successor_info \<Rightarrow> int \<Rightarrow> int" where
  "min_refs_loop v [] min_refs = min_refs"
| "min_refs_loop v (s_info # rest) min_refs =
     min_refs_loop v rest
       (if OrderedMap_count (fst s_info) v then min (OrderedMap_at (fst s_info) v) min_refs
        else 0)"

definition this_refs :: "BlockMap \<Rightarrow> val \<Rightarrow> int" where
  "this_refs er v = (if OrderedMap_count er v then OrderedMap_at er v else 0)"

text \<open>The loop of lines 949-964: one planned operation per disagreeing edge.\<close>

fun edge_ops_loop ::
  "RefcountState \<Rightarrow> BBGraph \<Rightarrow> nat \<Rightarrow> val \<Rightarrow> int \<Rightarrow> successor_info \<Rightarrow> RefState
    \<Rightarrow> error + RefState" where
  "edge_ops_loop refstate bbg idx v min_refs [] st = Inr st"
| "edge_ops_loop refstate bbg idx v min_refs (s_info # rest) st =
     (if this_refs (fst s_info) v > min_refs then
        edge_ops_loop refstate bbg idx v min_refs rest
          (st\<lparr>increfs := increfs st @
             [RefOp v (nullable refstate) (this_refs (fst s_info) v - min_refs) None
                (Some (bbs bbg ! snd s_info)) (Some (bbs bbg ! idx))]\<rparr>)
      else if this_refs (fst s_info) v < min_refs then
        then_do (assert_at 960 (reftype refstate = OWNED))
          (\<lambda>_. edge_ops_loop refstate bbg idx v min_refs rest
             (st\<lparr>decrefs := decrefs st @
                [RefOp v (nullable refstate) (min_refs - this_refs (fst s_info) v) None
                   (Some (bbs bbg ! snd s_info)) (Some (bbs bbg ! idx))]\<rparr>))
      else edge_ops_loop refstate bbg idx v min_refs rest st)"

definition merged_refs :: "RefcountTracker \<Rightarrow> successor_info \<Rightarrow> val \<Rightarrow> int" where
  "merged_refs rt info v =
     (let min_refs = min_refs_loop v info 1000000000
      in if reftype (vars_lookup rt v) = OWNED then max 1 min_refs else min_refs)"

definition merge_value ::
  "RefcountTracker \<Rightarrow> BBGraph \<Rightarrow> nat \<Rightarrow> successor_info \<Rightarrow> val \<Rightarrow> RefState
    \<Rightarrow> error + RefState" where
  "merge_value rt bbg idx info v st =
     then_do (assert_at 930 (vars_count rt v)) (\<lambda>_.
       let refstate = vars_lookup rt v;
           min_refs = merged_refs rt info v
       in then_do (edge_ops_loop refstate bbg idx v min_refs info st) (\<lambda>st'.
            if min_refs \<noteq> 0 then
              Inr (st'\<lparr>starting_refs := OrderedMap_store (starting_refs st') v min_refs\<rparr>)
            else
              then_do (assert_at 969 (\<not> OrderedMap_count (starting_refs st') v))
                (\<lambda>_. Inr st')))"

fun merge_values ::
  "RefcountTracker \<Rightarrow> BBGraph \<Rightarrow> nat \<Rightarrow> successor_info \<Rightarrow> val list \<Rightarrow> RefState
    \<Rightarrow> error + RefState" where
  "merge_values rt bbg idx info [] st = Inr st"
| "merge_values rt bbg idx info (v # vs) st =
     then_do (merge_value rt bbg idx info v st) (\<lambda>st'. merge_values rt bbg idx info vs st')"

definition merge_successors ::
  "RefcountTracker \<Rightarrow> BBGraph \<Rightarrow> nat \<Rightarrow> successor_info \<Rightarrow> RefState \<Rightarrow> error + RefState" where
  "merge_successors rt bbg idx info st =
     (if info \<noteq> [] then
        then_do (tracked_values [] info) (\<lambda>tracked. merge_values rt bbg idx info tracked st)
      else Inr st)"

subsection \<open>The backward scan of one instruction (lines 977-1127)\<close>

text \<open>
  \<open>insts\<close> is the whole block, \<open>rest\<close> the instructions that follow the current one in
  the block, so that \<^verbatim>\<open>getNextNode()\<close> is the head of \<open>rest\<close> and the null pointer at
  the end of the block.
\<close>

fun skip_phis :: "Inst list \<Rightarrow> error + val" where
  "skip_phis [] = Inl (InvalidDeref 993)"
| "skip_phis (n # rest) =
     (if isa_opcode PHINode (inst_val n) then skip_phis rest else Inr (inst_val n))"

definition is_terminator_of :: "Inst list \<Rightarrow> val \<Rightarrow> bool" where
  "is_terminator_of insts i = (map_option inst_val (getTerminator insts) = Some i)"

definition defining_refs :: "RefcountState \<Rightarrow> int" where
  "defining_refs rstate = (if reftype rstate = OWNED then 1 else 0)"

text \<open>The point a value is defined at (lines 985-1007).\<close>

definition define_step ::
  "RefcountTracker \<Rightarrow> Inst list \<Rightarrow> Inst \<Rightarrow> Inst list \<Rightarrow> RefState \<Rightarrow> error + RefState" where
  "define_step rt insts I rest st =
     (let i = inst_val I in
      if \<not> isa_opcode InvokeInst i \<and> vars_count rt i then
        let rstate = vars_lookup rt i;
            starting = defining_refs rstate;
            er = OrderedMap_index (ending_refs st) i;
            cur = OrderedMap_at er i
        in then_do
             (if cur \<noteq> starting then
                then_do (assert_at 991 (\<not> is_terminator_of insts i)) (\<lambda>_.
                then_do (skip_phis rest) (\<lambda>insertion_pt.
                  if cur < starting then
                    then_do (assert_at 998 (reftype rstate = OWNED)) (\<lambda>_.
                      Inr (st\<lparr>ending_refs := er, decrefs := decrefs st @
                        [RefOp i (nullable rstate) (starting - cur) (Some insertion_pt)
                           None None]\<rparr>))
                  else
                    Inr (st\<lparr>ending_refs := er, increfs := increfs st @
                      [RefOp i (nullable rstate) (cur - starting) (Some insertion_pt)
                         None None]\<rparr>)))
              else Inr (st\<lparr>ending_refs := er\<rparr>))
             (\<lambda>st'. then_do (OrderedMap_erase (ending_refs st') i)
                (\<lambda>er'. Inr (st'\<lparr>ending_refs := er'\<rparr>)))
      else Inr st)"

text \<open>
  Before a call that may throw (lines 1014-1030). The loop walks \<^verbatim>\<open>order\<close> and reads
  each count from the map as it then is; the keys it is to erase are collected and
  erased after the loop.
\<close>

definition needed_refs :: "RefcountTracker \<Rightarrow> val \<Rightarrow> int" where
  "needed_refs rt v = (if reftype (vars_lookup rt v) = OWNED then 1 else 0)"

fun flush_loop ::
  "RefcountTracker \<Rightarrow> val option \<Rightarrow> val list \<Rightarrow> RefState \<times> val list \<Rightarrow> RefState \<times> val list"
  where
  "flush_loop rt nxt [] acc = acc"
| "flush_loop rt nxt (k # ks) (st, to_erase) =
     (let c = OrderedMap_at (ending_refs st) k;
          st1 = (if c > needed_refs rt k then
                   st\<lparr>increfs := increfs st @
                     [RefOp k (nullable (vars_lookup rt k)) (c - needed_refs rt k) nxt
                        None None]\<rparr>
                 else st);
          st2 = st1\<lparr>ending_refs := OrderedMap_store (ending_refs st1) k (needed_refs rt k)\<rparr>
      in flush_loop rt nxt ks
           (st2, if needed_refs rt k = 0 then to_erase @ [k] else to_erase))"

fun erase_all :: "BlockMap \<Rightarrow> val list \<Rightarrow> error + BlockMap" where
  "erase_all er [] = Inr er"
| "erase_all er (v # vs) = then_do (OrderedMap_erase er v) (\<lambda>er'. erase_all er' vs)"

definition flush_step ::
  "RefcountTracker \<Rightarrow> Inst \<Rightarrow> Inst list \<Rightarrow> RefState \<Rightarrow> error + RefState" where
  "flush_step rt I rest st =
     (if inst_val I \<in> may_throw rt then
        (case flush_loop rt (getNextNode rest) (map fst (ending_refs st)) (st, []) of
           (st', to_erase) \<Rightarrow>
             then_do (erase_all (ending_refs st') to_erase)
               (\<lambda>er. Inr (st'\<lparr>ending_refs := er\<rparr>)))
      else Inr st)"

text \<open>
  The two counters of lines 1032-1062: how often a value is consumed by the
  instruction, and how often it is an operand, a used or a consumed value of it.
\<close>

fun consumed_loop ::
  "RefcountTracker \<Rightarrow> val list \<Rightarrow> val SmallOrderedMap \<times> val SmallOrderedMap
    \<Rightarrow> error + val SmallOrderedMap \<times> val SmallOrderedMap" where
  "consumed_loop rt [] acc = Inr acc"
| "consumed_loop rt (v # vs) (num_consumed_by_inst, num_times_as_op) =
     then_do
       (assert_at 1040 (vars_count rt v \<and> reftype (vars_lookup rt v) \<noteq> UNKNOWN))
       (\<lambda>_. consumed_loop rt vs
          (SmallOrderedMap_add num_consumed_by_inst v 1,
           SmallOrderedMap_index num_times_as_op v))"

fun used_loop ::
  "RefcountTracker \<Rightarrow> val list \<Rightarrow> val SmallOrderedMap \<Rightarrow> error + val SmallOrderedMap" where
  "used_loop rt [] num_times_as_op = Inr num_times_as_op"
| "used_loop rt (v # vs) num_times_as_op =
     then_do (assert_at 1050 (reftype (vars_lookup rt v) \<noteq> UNKNOWN))
       (\<lambda>_. used_loop rt vs (SmallOrderedMap_add num_times_as_op v 1))"

fun operand_loop ::
  "RefcountTracker \<Rightarrow> val list \<Rightarrow> val SmallOrderedMap \<Rightarrow> val SmallOrderedMap" where
  "operand_loop rt [] num_times_as_op = num_times_as_op"
| "operand_loop rt (v # vs) num_times_as_op =
     operand_loop rt vs
       (if vars_count rt v then SmallOrderedMap_add num_times_as_op v 1
        else num_times_as_op)"

definition find_list :: "(val \<rightharpoonup> val list) \<Rightarrow> val \<Rightarrow> val list" where
  "find_list m i = (case m i of None \<Rightarrow> [] | Some vs \<Rightarrow> vs)"

definition count_operands ::
  "RefcountTracker \<Rightarrow> Inst \<Rightarrow> error + val SmallOrderedMap \<times> val SmallOrderedMap" where
  "count_operands rt I =
     then_do (consumed_loop rt (find_list (refs_consumed rt) (inst_val I)) ([], []))
       (\<lambda>(num_consumed_by_inst, num_times_as_op).
          then_do (used_loop rt (find_list (refs_used rt) (inst_val I)) num_times_as_op)
            (\<lambda>num_times_as_op'.
               Inr (num_consumed_by_inst, operand_loop rt (operands I) num_times_as_op')))"

text \<open>
  The last use of an owned value (lines 1065-1098): the decrement goes on both
  out-edges of an invoke, and after any other instruction unless an
  \<^verbatim>\<open>unreachable\<close> follows it.
\<close>

definition last_use_decrefs ::
  "RefcountTracker \<Rightarrow> block \<Rightarrow> Inst list \<Rightarrow> Inst \<Rightarrow> Inst list \<Rightarrow> val \<Rightarrow> RefOp list
    \<Rightarrow> error + RefOp list" where
  "last_use_decrefs rt bb insts I rest op ds =
     (if isa_opcode InvokeInst (inst_val I) then
        (case (getNormalDest I, getUnwindDest I) of
           (Some normal_dest, Some unwind_dest) \<Rightarrow>
             Inr (ds @ [RefOp op (nullable (vars_lookup rt op)) 1 None (Some normal_dest) (Some bb),
                        RefOp op (nullable (vars_lookup rt op)) 1 None (Some unwind_dest) (Some bb)])
         | _ \<Rightarrow> Inl (InvalidDeref 1077))
      else
        then_do (assert_at 1081 (\<not> is_terminator_of insts (inst_val I))) (\<lambda>_.
          case getNextNode rest of
            None \<Rightarrow> Inl (InvalidDeref 1085)
          | Some nxt \<Rightarrow>
              if isa_opcode UnreachableInst nxt then
                then_do (assert_at 1088 (inst_val I \<in> may_throw rt)) (\<lambda>_. Inr ds)
              else Inr (ds @ [RefOp op (nullable (vars_lookup rt op)) 1 (Some nxt) None None])))"

fun last_use_loop ::
  "RefcountTracker \<Rightarrow> block \<Rightarrow> Inst list \<Rightarrow> Inst \<Rightarrow> Inst list \<Rightarrow> val SmallOrderedMap
    \<Rightarrow> val SmallOrderedMap \<Rightarrow> RefState \<Rightarrow> error + RefState" where
  "last_use_loop rt bb insts I rest num_consumed_by_inst [] st = Inr st"
| "last_use_loop rt bb insts I rest num_consumed_by_inst (p # ps) st =
     (if snd p > SmallOrderedMap_get num_consumed_by_inst (fst p)
         \<and> reftype (vars_lookup rt (fst p)) = OWNED then
        (let er = OrderedMap_index (ending_refs st) (fst p) in
         if OrderedMap_at er (fst p) = 0 then
           then_do (last_use_decrefs rt bb insts I rest (fst p) (decrefs st)) (\<lambda>ds.
             last_use_loop rt bb insts I rest num_consumed_by_inst ps
               (st\<lparr>ending_refs := OrderedMap_store er (fst p) 1, decrefs := ds\<rparr>))
         else
           last_use_loop rt bb insts I rest num_consumed_by_inst ps (st\<lparr>ending_refs := er\<rparr>))
      else last_use_loop rt bb insts I rest num_consumed_by_inst ps st)"

text \<open>
  The fixup record of a call that may throw (lines 1100-1115): every entry of
  \<^verbatim>\<open>ending_refs\<close> as often as its count says, in the order of the map.
\<close>

fun fixup_loop :: "RefcountTracker \<Rightarrow> BlockMap \<Rightarrow> val list \<Rightarrow> error + val list" where
  "fixup_loop rt [] to_dec = Inr to_dec"
| "fixup_loop rt (p # ps) to_dec =
     (if 0 < snd p then
        then_do (assert_at 1108 (vars_count rt (fst p)))
          (\<lambda>_. fixup_loop rt ps (to_dec @ replicate (nat (snd p)) (fst p)))
      else fixup_loop rt ps to_dec)"

definition fixup_step :: "RefcountTracker \<Rightarrow> Inst \<Rightarrow> RefState \<Rightarrow> error + RefState" where
  "fixup_step rt I st =
     (if inst_val I \<in> may_throw rt then
        then_do (fixup_loop rt (ending_refs st) []) (\<lambda>to_dec.
          if to_dec = [] then Inr st
          else Inr (st\<lparr>cxx_fixups := cxx_fixups st @
                 [\<lparr>fixup_inst = inst_val I, to_decref = to_dec\<rparr>]\<rparr>))
      else Inr st)"

text \<open>The references the instruction steals (lines 1119-1126).\<close>

fun stolen_loop :: "val SmallOrderedMap \<Rightarrow> val SmallOrderedMap \<Rightarrow> BlockMap \<Rightarrow> BlockMap" where
  "stolen_loop num_consumed_by_inst [] er = er"
| "stolen_loop num_consumed_by_inst (p # ps) er =
     stolen_loop num_consumed_by_inst ps
       (if SmallOrderedMap_get num_consumed_by_inst (fst p) \<noteq> 0 then
          OrderedMap_store er (fst p)
            (OrderedMap_at er (fst p) + SmallOrderedMap_get num_consumed_by_inst (fst p))
        else er)"

text \<open>
  The scan of one instruction up to the point the fixup record is taken at, and the
  whole of it.
\<close>

definition scan_to_fixup ::
  "RefcountTracker \<Rightarrow> block \<Rightarrow> Inst list \<Rightarrow> Inst \<Rightarrow> Inst list \<Rightarrow> RefState
    \<Rightarrow> error + RefState \<times> val SmallOrderedMap \<times> val SmallOrderedMap" where
  "scan_to_fixup rt bb insts I rest st =
     then_do (flush_step rt I rest st) (\<lambda>st2.
     then_do (count_operands rt I) (\<lambda>(num_consumed_by_inst, num_times_as_op).
     then_do (last_use_loop rt bb insts I rest num_consumed_by_inst num_times_as_op st2)
       (\<lambda>st3. Inr (st3, num_consumed_by_inst, num_times_as_op))))"

definition scanInst ::
  "RefcountTracker \<Rightarrow> block \<Rightarrow> Inst list \<Rightarrow> Inst \<Rightarrow> Inst list \<Rightarrow> RefState
    \<Rightarrow> error + RefState" where
  "scanInst rt bb insts I rest st =
     then_do (define_step rt insts I rest st) (\<lambda>st1.
       if isa_opcode PHINode (inst_val I) then Inr st1
       else
         then_do (scan_to_fixup rt bb insts I rest st1)
           (\<lambda>(st3, num_consumed_by_inst, num_times_as_op).
              then_do (fixup_step rt I st3) (\<lambda>st4.
                Inr (st4\<lparr>ending_refs :=
                  stolen_loop num_consumed_by_inst num_times_as_op (ending_refs st4)\<rparr>))))"

text \<open>The instructions of the block from the last to the first.\<close>

fun scanInsts ::
  "RefcountTracker \<Rightarrow> block \<Rightarrow> Inst list \<Rightarrow> Inst list \<Rightarrow> RefState \<Rightarrow> error + RefState" where
  "scanInsts rt bb insts [] st = Inr st"
| "scanInsts rt bb insts (I # rest) st =
     then_do (scanInsts rt bb insts rest st) (\<lambda>st'. scanInst rt bb insts I rest st')"

subsection \<open>Invokes and the entry block (lines 1139-1192)\<close>

text \<open>
  \<open>invokes\<close> are the tracked invoke instructions of the function with the block each
  is in, in the order of the function (lines 847-864). The result of an invoke is
  defined at the top of its normal destination.
\<close>

definition inst_range :: "Function \<Rightarrow> (block \<times> Inst) list" where
  "inst_range f = concat (map (\<lambda>b. map (Pair b) (body f b)) (layout f))"

definition tracked_invokes :: "RefcountTracker \<Rightarrow> Function \<Rightarrow> (block \<times> Inst) list" where
  "tracked_invokes rt f =
     filter (\<lambda>(b, I). vars_count rt (inst_val I) \<and> isa_opcode InvokeInst (inst_val I))
       (inst_range f)"

definition invoke_step ::
  "RefcountTracker \<Rightarrow> block \<Rightarrow> block \<times> Inst \<Rightarrow> RefState \<Rightarrow> error + RefState" where
  "invoke_step rt bb parent_ii st =
     (let ii = inst_val (snd parent_ii); rstate = vars_lookup rt ii in
      if getNormalDest (snd parent_ii) = Some bb then
        let starting = defining_refs rstate;
            er = OrderedMap_index (ending_refs st) ii;
            cur = OrderedMap_at er ii
        in then_do
             (if cur \<noteq> starting then
                if cur < starting then
                  then_do (assert_at 1154 (reftype rstate = OWNED)) (\<lambda>_.
                    Inr (st\<lparr>ending_refs := er, decrefs := decrefs st @
                      [RefOp ii (nullable rstate) (starting - cur) None (Some bb)
                         (Some (fst parent_ii))]\<rparr>))
                else
                  Inr (st\<lparr>ending_refs := er, increfs := increfs st @
                    [RefOp ii (nullable rstate) (cur - starting) None (Some bb)
                       (Some (fst parent_ii))]\<rparr>)
              else Inr (st\<lparr>ending_refs := er\<rparr>))
             (\<lambda>st'. then_do (OrderedMap_erase (ending_refs st') ii)
                (\<lambda>er'. Inr (st'\<lparr>ending_refs := er'\<rparr>)))
      else Inr st)"

fun invokes_loop ::
  "RefcountTracker \<Rightarrow> block \<Rightarrow> (block \<times> Inst) list \<Rightarrow> RefState \<Rightarrow> error + RefState" where
  "invokes_loop rt bb [] st = Inr st"
| "invokes_loop rt bb (ii # iis) st =
     then_do (invoke_step rt bb ii st) (\<lambda>st'. invokes_loop rt bb iis st')"

text \<open>
  The entry block hands nothing to a predecessor (lines 1166-1192): what is left is
  incremented at the top of the block.
\<close>

definition entry_value_ok :: "Function \<Rightarrow> val \<Rightarrow> bool" where
  "entry_value_ok f v = (isa_GlobalVariable v \<or> isa_Constant v \<or> v \<in> set (args f))"

fun entry_loop ::
  "RefcountTracker \<Rightarrow> Function \<Rightarrow> block \<Rightarrow> BlockMap \<Rightarrow> RefOp list \<Rightarrow> error + RefOp list" where
  "entry_loop rt f bb [] incs = Inr incs"
| "entry_loop rt f bb (p # ps) incs =
     then_do (assert_at 1169 (snd p \<noteq> 0)) (\<lambda>_.
     then_do (assert_at 1183 (entry_value_ok f (fst p))) (\<lambda>_.
     then_do (assert_at 1186 (reftype (vars_lookup rt (fst p)) = BORROWED)) (\<lambda>_.
       entry_loop rt f bb ps
         (incs @ [RefOp (fst p) (nullable (vars_lookup rt (fst p))) (snd p) None (Some bb)
                    None]))))"

definition entry_step ::
  "RefcountTracker \<Rightarrow> Function \<Rightarrow> block \<Rightarrow> RefState \<Rightarrow> error + RefState" where
  "entry_step rt f bb st =
     (if Some bb = front f then
        then_do (entry_loop rt f bb (ending_refs st) (increfs st))
          (\<lambda>incs. Inr (st\<lparr>increfs := incs, ending_refs := OrderedMap_clear (ending_refs st)\<rparr>))
      else Inr st)"

text \<open>The increment planned for an entry of the map at the top of the entry block.\<close>

definition entry_incref :: "RefcountTracker \<Rightarrow> block \<Rightarrow> val \<times> int \<Rightarrow> RefOp" where
  "entry_incref rt bb p =
     RefOp (fst p) (nullable (vars_lookup rt (fst p))) (snd p) None (Some bb) None"

subsection \<open>One visit to a block (lines 871-1201)\<close>

text \<open>
  The visit answers the states and whether the predecessors of the block go back on
  the worklist. Lines 889-898 mark the block as run and clear its state before lines
  902-905 look for the successors that have been run: a block that is its own
  successor finds itself among them, with the empty map.
\<close>

definition cleared_state :: RefState where
  "cleared_state =
     \<lparr>been_run = True, starting_refs = [], ending_refs = [], increfs = [], decrefs = [],
      cxx_fixups = []\<rparr>"

definition block_successor_info :: "BBGraph \<Rightarrow> RefState list \<Rightarrow> nat \<Rightarrow> successor_info" where
  "block_successor_info bbg states idx =
     (let states0 = states[idx := cleared_state];
          succs = filter (\<lambda>sidx. been_run (states0 ! sidx)) (successors bbg ! idx)
      in map (\<lambda>sidx. (ending_refs (states0 ! sidx), sidx)) succs)"

text \<open>The vectors are indexed within their bounds (the graph is built that way).\<close>

definition visit_in_range :: "BBGraph \<Rightarrow> RefState list \<Rightarrow> nat \<Rightarrow> bool" where
  "visit_in_range bbg states idx =
     (idx < length states \<and> idx < length (bbs bbg) \<and> idx < length (successors bbg)
      \<and> (\<forall>sidx \<in> set (successors bbg ! idx). sidx < length states))"

text \<open>The visit up to the end of the merge (lines 888-972).\<close>

definition merge_block ::
  "RefcountTracker \<Rightarrow> BBGraph \<Rightarrow> RefState list \<Rightarrow> nat \<Rightarrow> error + RefState" where
  "merge_block rt bbg states idx =
     (if visit_in_range bbg states idx then
        merge_successors rt bbg idx (block_successor_info bbg states idx) cleared_state
      else Inl (InvalidDeref 888))"

definition processBlock ::
  "RefcountTracker \<Rightarrow> Function \<Rightarrow> BBGraph \<Rightarrow> RefState list \<Rightarrow> nat
    \<Rightarrow> error + RefState list \<times> bool" where
  "processBlock rt f bbg states idx =
     (let bb = bbs bbg ! idx;
          firsttime = \<not> been_run (states ! idx);
          orig_ending_refs = ending_refs (states ! idx)
      in then_do (merge_block rt bbg states idx) (\<lambda>st1.
         then_do (scanInsts rt bb (body f bb) (body f bb)
                    (st1\<lparr>ending_refs := starting_refs st1\<rparr>)) (\<lambda>st3.
         then_do (invokes_loop rt bb (tracked_invokes rt f) st3) (\<lambda>st4.
         then_do (entry_step rt f bb st4) (\<lambda>st5.
           Inr (states[idx := st5],
                firsttime \<or> endingRefsDifferent orig_ending_refs (ending_refs st5)))))))"

subsection \<open>\<^verbatim>\<open>findInsertionPoint\<close> (lines 126-199)\<close>

text \<open>
  The predecessors of a block are the uses of the block by terminators, one for
  every successor slot that names it.
\<close>

definition terminator_successors :: "Inst list \<Rightarrow> block list" where
  "terminator_successors insts =
     (case getTerminator insts of None \<Rightarrow> [] | Some t \<Rightarrow> inst_blocks t)"

definition numPredecessors :: "Function \<Rightarrow> block \<Rightarrow> nat" where
  "numPredecessors f b =
     sum_list (map (\<lambda>p. count_list (terminator_successors (body f p)) b) (layout f))"

fun replace_first :: "block \<Rightarrow> block \<Rightarrow> block list \<Rightarrow> block list" where
  "replace_first old new [] = []"
| "replace_first old new (b # bs) =
     (if b = old then new # bs else b # replace_first old new bs)"

fun remapPhis :: "Inst list \<Rightarrow> block \<Rightarrow> block \<Rightarrow> Inst list" where
  "remapPhis [] from_block new_from_block = []"
| "remapPhis (I # rest) from_block new_from_block =
     (if \<not> isa_opcode PHINode (inst_val I) then I # rest
      else I\<lparr>inst_blocks := replace_first from_block new_from_block (inst_blocks I)\<rparr>
             # remapPhis rest from_block new_from_block)"

fun insert_before :: "block \<Rightarrow> block \<Rightarrow> block list \<Rightarrow> block list" where
  "insert_before new b [] = [new]"
| "insert_before new b (x # xs) = (if x = b then new # x # xs else x # insert_before new b xs)"

text \<open>
  The terminator of \<^verbatim>\<open>from_bb\<close> is pointed at the breaker block (lines 160-174): both
  slots of a branch, the normal destination only of an invoke.
\<close>

definition retarget :: "Inst \<Rightarrow> block \<Rightarrow> block \<Rightarrow> error + Inst" where
  "retarget t BB breaker =
     (if isa_opcode BranchInst (inst_val t) then
        (case inst_blocks t of
           [] \<Rightarrow> Inl (InvalidDeref 163)
         | [s0] \<Rightarrow> Inr (t\<lparr>inst_blocks := [if s0 = BB then breaker else s0]\<rparr>)
         | s0 # s1 # others \<Rightarrow>
             Inr (t\<lparr>inst_blocks :=
               (if s0 = BB then breaker else s0) # (if s1 = BB then breaker else s1) # others\<rparr>))
      else if isa_opcode InvokeInst (inst_val t) then
        (case inst_blocks t of
           normal_dest # unwind_dest # others \<Rightarrow>
             then_do (assert_at 170 (unwind_dest \<noteq> BB)) (\<lambda>_.
               Inr (t\<lparr>inst_blocks :=
                 (if normal_dest = BB then breaker else normal_dest) # unwind_dest # others\<rparr>))
         | _ \<Rightarrow> Inl (InvalidDeref 168))
      else Inl (ReleaseAssertFailed 173))"

type_synonym InsertionCache = "block \<times> block option \<rightharpoonup> val"

definition break_edge ::
  "Function \<Rightarrow> block \<Rightarrow> block \<Rightarrow> error + val \<times> Function" where
  "break_edge f BB from_bb =
     (let breaker_block = fresh f;
          br = \<lparr>inst_val = Val (fresh f + 1) (Instruction BranchInst), operands = [],
                inst_blocks = [BB]\<rparr>;
          f1 = f\<lparr>layout := insert_before breaker_block BB (layout f),
                 body := (body f)(breaker_block := [br]),
                 fresh := fresh f + 2\<rparr>
      in case getTerminator (body f1 from_bb) of
           None \<Rightarrow> Inl (InvalidDeref 162)
         | Some t \<Rightarrow>
             then_do (retarget t BB breaker_block) (\<lambda>t'.
               let f2 = f1\<lparr>body := (body f1)(from_bb := butlast (body f1 from_bb) @ [t'])\<rparr>;
                   f3 = f2\<lparr>body := (body f2)(BB := remapPhis (body f2 BB) from_bb breaker_block)\<rparr>
               in Inr (inst_val br, f3)))"

definition first_insertion_point :: "Inst list \<Rightarrow> error + val" where
  "first_insertion_point insts =
     (case insts of
        [] \<Rightarrow> Inl (InvalidDeref 182)
      | i0 # _ \<Rightarrow>
          if isa_opcode LandingPadInst (inst_val i0) then
            (case drop 3 insts of [] \<Rightarrow> Inl (InvalidDeref 189) | i3 # _ \<Rightarrow> Inr (inst_val i3))
          else
            (case find (\<lambda>I. \<not> isa_opcode PHINode (inst_val I)
                              \<and> \<not> isa_opcode AllocaInst (inst_val I)) insts of
               None \<Rightarrow> Inl (Aborted 197)
             | Some I \<Rightarrow> Inr (inst_val I)))"

definition findInsertionPoint ::
  "Function \<Rightarrow> InsertionCache \<Rightarrow> block option \<Rightarrow> block option
    \<Rightarrow> error + val \<times> Function \<times> InsertionCache" where
  "findInsertionPoint f cache BB from_bb =
     (case BB of
        None \<Rightarrow> Inl (AssertionFailed 142)
      | Some to \<Rightarrow>
          then_do (assert_at 143 (BB \<noteq> from_bb)) (\<lambda>_.
            case cache (to, from_bb) of
              Some pt \<Rightarrow> Inr (pt, f, cache)
            | None \<Rightarrow>
                if numPredecessors f to > 1 then
                  (case from_bb of
                     None \<Rightarrow> Inl (AssertionFailed 153)
                   | Some frm \<Rightarrow>
                       then_do (break_edge f to frm) (\<lambda>(pt, f').
                         Inr (pt, f', cache((to, from_bb) \<mapsto> pt))))
                else
                  then_do (first_insertion_point (body f to)) (\<lambda>pt.
                    Inr (pt, f, cache((to, from_bb) \<mapsto> pt)))))"

subsection \<open>\<^verbatim>\<open>addDecrefs\<close> (lines 264-307)\<close>

text \<open>
  What the call does is recorded as the sequence of its output and builder calls, in
  the order the code makes them, together with the way it ends: \<open>None\<close> when it
  returns, the error otherwise; the calls made before an error stay in the sequence.
  The patchpoint's identifier and size are constants of a header that is not among
  the sources; \<open>DECREF_PP\<close> and \<open>XDECREF_PP\<close> stand for the two pairs.
  \<^verbatim>\<open>raise(SIGTRAP)\<close> returns only when the signal is caught, ignored or resumed by a
  debugger; \<open>trap_returns\<close> says which, and the signal's default action ends the
  process. \<open>new_inst\<close> is the address of the next instruction the builder creates.
  The assertion of line 287 looks at the branch that \<^verbatim>\<open>splitBasicBlock\<close> has just
  put at the end of the block, so it holds.
\<close>

datatype patchpoint = DECREF_PP | XDECREF_PP

datatype event =
    Printf string
  | Raise_SIGTRAP
  | SplitBasicBlock val
  | CreateBasicBlock string
  | EraseTerminator
  | CreateICmpEQ_null val
  | CreateCondBr
  | CreateBr val
  | CreatePatchpointCall patchpoint val val

definition more_than_one_decref :: "event list" where
  "more_than_one_decref = [Printf ''Whoa more than one decref??\<newline>'', Raise_SIGTRAP]"

function addDecrefs ::
  "bool \<Rightarrow> nat \<Rightarrow> val \<Rightarrow> bool \<Rightarrow> int \<Rightarrow> val \<Rightarrow> event list \<times> error option" where
  "addDecrefs trap_returns new_inst v nullable_v num_refs decref_pt =
     (let warned = (if num_refs > 1 then more_than_one_decref else []) in
      if num_refs > 1 \<and> \<not> trap_returns then (warned, Some (KilledBySIGTRAP 268))
      else if isa_ConstantPointerNull v then
        (warned, if nullable_v then None else Some (AssertionFailed 274))
      else if \<not> num_refs > 0 then (warned, Some (AssertionFailed 278))
      else if nullable_v then
        (let jmp = Val new_inst (Instruction BranchInst);
             inner = addDecrefs trap_returns (new_inst + 1) v False num_refs jmp
         in (warned @
               [SplitBasicBlock decref_pt, CreateBasicBlock ''decref'', EraseTerminator,
                CreateICmpEQ_null v, CreateCondBr, CreateBr jmp] @ fst inner,
             snd inner))
      else if num_refs \<noteq> 1 then (warned, Some (ReleaseAssertFailed 300))
      else
        (warned @
           [CreatePatchpointCall (if nullable_v then XDECREF_PP else DECREF_PP) v decref_pt],
         None))"
  by pat_completeness auto
termination
  by (relation "measure (\<lambda>(t, n, v, nullable_v, r, p). if nullable_v then 1 else 0)") auto

subsection \<open>What the merge is to plan\<close>

text \<open>
  Closed forms to state the merge with: the increments and decrements on the edges to
  the successors for one value, the invariant that no map holds a count below 1, the
  values some successor holds, and the counts the successors demand of a value.
\<close>

definition edge_increfs ::
  "RefcountTracker \<Rightarrow> BBGraph \<Rightarrow> nat \<Rightarrow> successor_info \<Rightarrow> val \<Rightarrow> RefOp list" where
  "edge_increfs rt bbg idx info v =
     map (\<lambda>s. RefOp v (nullable (vars_lookup rt v))
                 (this_refs (fst s) v - merged_refs rt info v) None
                 (Some (bbs bbg ! snd s)) (Some (bbs bbg ! idx)))
       (filter (\<lambda>s. merged_refs rt info v < this_refs (fst s) v) info)"

definition edge_decrefs ::
  "RefcountTracker \<Rightarrow> BBGraph \<Rightarrow> nat \<Rightarrow> successor_info \<Rightarrow> val \<Rightarrow> RefOp list" where
  "edge_decrefs rt bbg idx info v =
     map (\<lambda>s. RefOp v (nullable (vars_lookup rt v))
                 (merged_refs rt info v - this_refs (fst s) v) None
                 (Some (bbs bbg ! snd s)) (Some (bbs bbg ! idx)))
       (filter (\<lambda>s. this_refs (fst s) v < merged_refs rt info v) info)"

definition positive_counts :: "successor_info \<Rightarrow> bool" where
  "positive_counts info = (\<forall>s \<in> set info. \<forall>p \<in> set (fst s). 0 < snd p)"

definition successor_keys :: "successor_info \<Rightarrow> val set" where
  "successor_keys info = (\<Union>s \<in> set info. fst ` set (fst s))"

definition demands :: "successor_info \<Rightarrow> val \<Rightarrow> int set" where
  "demands info v = (\<lambda>s. this_refs (fst s) v) ` set info"

text \<open>
  For one visit to a block: the successors that have been run when the visit begins,
  that none of their maps holds a count below 1, and that every value of their maps
  is annotated.
\<close>

definition processed_successors :: "BBGraph \<Rightarrow> RefState list \<Rightarrow> nat \<Rightarrow> nat list" where
  "processed_successors bbg states idx =
     filter (\<lambda>sidx. been_run (states ! sidx)) (successors bbg ! idx)"

definition successor_counts_positive :: "BBGraph \<Rightarrow> RefState list \<Rightarrow> nat \<Rightarrow> bool" where
  "successor_counts_positive bbg states idx =
     (\<forall>sidx \<in> set (processed_successors bbg states idx).
        \<forall>p \<in> set (ending_refs (states ! sidx)). 0 < snd p)"

definition successor_values_annotated ::
  "RefcountTracker \<Rightarrow> BBGraph \<Rightarrow> RefState list \<Rightarrow> nat \<Rightarrow> bool" where
  "successor_values_annotated rt bbg states idx =
     (\<forall>sidx \<in> set (processed_successors bbg states idx).
        \<forall>p \<in> set (ending_refs (states ! sidx)). vars_count rt (fst p))"

text \<open>
  The state of \<^verbatim>\<open>ending_refs\<close> while the loop before a call that may throw runs (the
  keys in \<open>ks\<close> have been set to what they need), and the increments that loop is to
  plan for the surplus of each entry.
\<close>

definition flushed :: "RefcountTracker \<Rightarrow> val set \<Rightarrow> BlockMap \<Rightarrow> BlockMap" where
  "flushed rt ks er = map (\<lambda>p. if fst p \<in> ks then (fst p, needed_refs rt (fst p)) else p) er"

definition surplus_increfs :: "RefcountTracker \<Rightarrow> val option \<Rightarrow> BlockMap \<Rightarrow> RefOp list" where
  "surplus_increfs rt nxt er =
     map (\<lambda>p. RefOp (fst p) (nullable (vars_lookup rt (fst p)))
                 (snd p - needed_refs rt (fst p)) nxt None None)
       (filter (\<lambda>p. needed_refs rt (fst p) < snd p) er)"

text \<open>
  To state the fixup record with: the values of a map, each as often as its count
  says, in the order of the map; that every entry with a count is annotated; and that
  every entry with a count is \<^verbatim>\<open>OWNED\<close>.
\<close>

definition expand_refs :: "BlockMap \<Rightarrow> val list" where
  "expand_refs er = concat (map (\<lambda>p. replicate (nat (snd p)) (fst p)) er)"

definition tracked_keys :: "RefcountTracker \<Rightarrow> BlockMap \<Rightarrow> bool" where
  "tracked_keys rt er = (\<forall>p \<in> set er. 0 < snd p \<longrightarrow> vars_count rt (fst p))"

definition owned_where_positive :: "RefcountTracker \<Rightarrow> BlockMap \<Rightarrow> bool" where
  "owned_where_positive rt er =
     (\<forall>p \<in> set er. 0 < snd p \<longrightarrow> reftype (vars_lookup rt (fst p)) = OWNED)"

subsection \<open>Example inputs\<close>

text \<open>
  An entry block that calls and branches, and a successor block that begins with a
  phi and an alloca.
\<close>

definition example_function :: Function where
  "example_function =
     \<lparr>layout = [0, 1],
      body = (\<lambda>b. if b = 0 then
                     [\<lparr>inst_val = Val 10 (Instruction CallInst), operands = [], inst_blocks = []\<rparr>,
                      \<lparr>inst_val = Val 11 (Instruction BranchInst), operands = [],
                        inst_blocks = [1]\<rparr>]
                   else if b = 1 then
                     [\<lparr>inst_val = Val 12 (Instruction PHINode), operands = [Val 10 (Instruction CallInst)],
                        inst_blocks = [0]\<rparr>,
                      \<lparr>inst_val = Val 13 (Instruction AllocaInst), operands = [], inst_blocks = []\<rparr>,
                      \<lparr>inst_val = Val 14 (Instruction CallInst),
                        operands = [Val 12 (Instruction PHINode)], inst_blocks = []\<rparr>,
                      \<lparr>inst_val = Val 15 (Instruction OtherTerminator), operands = [],
                        inst_blocks = []\<rparr>]
                   else []),
      args = [Val 1 Argument],
      fresh = 100\<rparr>"

text \<open>
  A block with two successors that have been run: the first holds one reference to an
  owned call result and two to a borrowed argument, the second one to the argument.
\<close>

definition example_tracker :: RefcountTracker where
  "example_tracker =
     \<lparr>vars = [Val 20 (Instruction CallInst) \<mapsto> \<lparr>reftype = OWNED, nullable = False\<rparr>,
              Val 1 Argument \<mapsto> \<lparr>reftype = BORROWED, nullable = False\<rparr>],
      may_throw = {Val 21 (Instruction CallInst)},
      refs_consumed = Map.empty, refs_used = Map.empty\<rparr>"

definition example_graph :: BBGraph where
  "example_graph = \<lparr>bbs = [10, 11, 12], predecessors = [[], [0], [0]],
                    successors = [[1, 2], [], []]\<rparr>"

definition example_info :: successor_info where
  "example_info =
     [([(Val 20 (Instruction CallInst), 1), (Val 1 Argument, 2)], 1),
      ([(Val 1 Argument, 1)], 2)]"

definition example_merged :: RefState where
  "example_merged =
     \<lparr>been_run = True,
      starting_refs = [(Val 20 (Instruction CallInst), 1), (Val 1 Argument, 1)],
      ending_refs = [],
      increfs = [RefOp (Val 1 Argument) False 1 None (Some 11) (Some 10)],
      decrefs = [RefOp (Val 20 (Instruction CallInst)) False 1 None (Some 12) (Some 10)],
      cxx_fixups = []\<rparr>"

text \<open>
  A call that may throw, the terminator after it, and a state in which three
  references to the owned value and two to the argument are held after the call.
\<close>

definition example_call :: Inst where
  "example_call =
     \<lparr>inst_val = Val 21 (Instruction CallInst),
      operands = [Val 20 (Instruction CallInst), Val 1 Argument], inst_blocks = []\<rparr>"

definition example_rest :: "Inst list" where
  "example_rest =
     [\<lparr>inst_val = Val 22 (Instruction OtherTerminator),
       operands = [Val 20 (Instruction CallInst)], inst_blocks = []\<rparr>]"

definition example_scan_state :: RefState where
  "example_scan_state =
     \<lparr>been_run = True, starting_refs = [],
      ending_refs = [(Val 20 (Instruction CallInst), 3), (Val 1 Argument, 2)],
      increfs = [], decrefs = [], cxx_fixups = []\<rparr>"

text \<open>The state of the example at the point the fixup record is taken.\<close>

definition example_at_fixup :: RefState where
  "example_at_fixup =
     \<lparr>been_run = True, starting_refs = [],
      ending_refs = [(Val 20 (Instruction CallInst), 1)],
      increfs =
        [RefOp (Val 20 (Instruction CallInst)) False 2
           (Some (Val 22 (Instruction OtherTerminator))) None None,
         RefOp (Val 1 Argument) False 2 (Some (Val 22 (Instruction OtherTerminator))) None None],
      decrefs = [], cxx_fixups = []\<rparr>"

text \<open>
  The states of the first example when its entry block is visited: both successors
  have been run, the entry block has not.
\<close>

definition unrun_state :: RefState where
  "unrun_state =
     \<lparr>been_run = False, starting_refs = [], ending_refs = [], increfs = [], decrefs = [],
      cxx_fixups = []\<rparr>"

definition example_states :: "RefState list" where
  "example_states =
     [unrun_state,
      cleared_state\<lparr>ending_refs := [(Val 20 (Instruction CallInst), 1), (Val 1 Argument, 2)]\<rparr>,
      cleared_state\<lparr>ending_refs := [(Val 1 Argument, 1)]\<rparr>]"

text \<open>
  A loop: the entry block branches to a block that passes the argument to a call that
  consumes a reference and then branches to itself or to the exit block, which passes
  the argument to such a call once more. The states of the two blocks after the
  solver has visited them.
\<close>

definition loop_tracker :: RefcountTracker where
  "loop_tracker =
     \<lparr>vars = [Val 1 Argument \<mapsto> \<lparr>reftype = BORROWED, nullable = False\<rparr>],
      may_throw = {},
      refs_consumed = [Val 41 (Instruction CallInst) \<mapsto> [Val 1 Argument],
                       Val 43 (Instruction CallInst) \<mapsto> [Val 1 Argument]],
      refs_used = Map.empty\<rparr>"

definition loop_function :: Function where
  "loop_function =
     \<lparr>layout = [30, 31, 32],
      body = (\<lambda>b. if b = 30 then
                     [\<lparr>inst_val = Val 40 (Instruction BranchInst), operands = [],
                        inst_blocks = [31]\<rparr>]
                   else if b = 31 then
                     [\<lparr>inst_val = Val 41 (Instruction CallInst), operands = [Val 1 Argument],
                        inst_blocks = []\<rparr>,
                      \<lparr>inst_val = Val 42 (Instruction BranchInst), operands = [],
                        inst_blocks = [31, 32]\<rparr>]
                   else if b = 32 then
                     [\<lparr>inst_val = Val 43 (Instruction CallInst), operands = [Val 1 Argument],
                        inst_blocks = []\<rparr>,
                      \<lparr>inst_val = Val 44 (Instruction OtherTerminator), operands = [],
                        inst_blocks = []\<rparr>]
                   else []),
      args = [Val 1 Argument],
      fresh = 100\<rparr>"

definition loop_graph :: BBGraph where
  "loop_graph = \<lparr>bbs = [30, 31, 32], predecessors = [[], [0, 1], [1]],
                 successors = [[1], [1, 2], []]\<rparr>"

definition loop_exit_state :: RefState where
  "loop_exit_state = cleared_state\<lparr>ending_refs := [(Val 1 Argument, 1)]\<rparr>"

definition loop_body_state :: RefState where
  "loop_body_state =
     cleared_state\<lparr>ending_refs := [(Val 1 Argument, 1)],
                   increfs := [RefOp (Val 1 Argument) False 1 None (Some 32) (Some 31)]\<rparr>"

section \<open>Properties\<close>

subsection \<open>The ordered map\<close>

lemma then_do_Inr_iff:
  "then_do r f = Inr y \<longleftrightarrow> (\<exists>x. r = Inr x \<and> f x = Inr y)"
  by (cases r) (simp_all add: then_do_def)

lemma then_do_Inr [simp]: "then_do (Inr x) f = f x"
  by (simp add: then_do_def)

lemma then_do_Inl [simp]: "then_do (Inl e) f = Inl e"
  by (simp add: then_do_def)

lemma assert_at_True [simp]: "assert_at l True = Inr ()"
  by (simp add: assert_at_def)

lemma assert_at_False [simp]: "assert_at l False = Inl (AssertionFailed l)"
  by (simp add: assert_at_def)

lemma inv_map_of_iff:
  "OrderedMap_inv m \<Longrightarrow> map_of m k = Some c \<longleftrightarrow> (k, c) \<in> set m"
  by (simp add: OrderedMap_inv_def)

lemma inv_distinct: "OrderedMap_inv m \<Longrightarrow> distinct m"
  by (simp add: OrderedMap_inv_def distinct_map)

subsection \<open>Comparing two maps of counts\<close>

lemma endingRefsDifferent_loop_iff:
  "endingRefsDifferent_loop lhs rhs
     \<longleftrightarrow> (\<exists>p \<in> set lhs. map_of rhs (fst p) \<noteq> Some (snd p))"
  by (induction lhs) (auto simp: OrderedMap_count_def OrderedMap_get_def)

lemma endingRefsDifferent_iff:
  assumes "OrderedMap_inv lhs" "OrderedMap_inv rhs"
  shows "\<not> endingRefsDifferent lhs rhs \<longleftrightarrow> set lhs = set rhs"
proof
  assume same: "\<not> endingRefsDifferent lhs rhs"
  then have len: "length lhs = length rhs"
    and sub: "\<forall>p \<in> set lhs. map_of rhs (fst p) = Some (snd p)"
    by (auto simp: endingRefsDifferent_def OrderedMap_size_def endingRefsDifferent_loop_iff
        split: if_splits)
  from sub assms(2) have "set lhs \<subseteq> set rhs"
    by (auto simp: inv_map_of_iff)
  moreover have "card (set lhs) = card (set rhs)"
    using len assms by (simp add: distinct_card inv_distinct)
  ultimately show "set lhs = set rhs"
    by (simp add: card_subset_eq)
next
  assume eq: "set lhs = set rhs"
  have "length lhs = length rhs"
    using assms eq by (metis distinct_card inv_distinct)
  moreover have "\<forall>p \<in> set lhs. map_of rhs (fst p) = Some (snd p)"
    using eq assms(2) by (auto simp: inv_map_of_iff)
  ultimately show "\<not> endingRefsDifferent lhs rhs"
    by (simp add: endingRefsDifferent_def OrderedMap_size_def endingRefsDifferent_loop_iff)
qed

text \<open>
  Claim C9. On two maps that keep the invariant of \<^verbatim>\<open>OrderedMap\<close>,
  \<open>endingRefsDifferent\<close> answers false exactly when the two hold the same values with
  the same counts; the answer is the same with the arguments exchanged, and the same
  for any other insertion order of either map.
\<close>

theorem endingRefsDifferent_order_insensitive:
  assumes "OrderedMap_inv lhs" "OrderedMap_inv rhs"
  shows "(\<not> endingRefsDifferent lhs rhs \<longleftrightarrow> set lhs = set rhs)
       \<and> endingRefsDifferent lhs rhs = endingRefsDifferent rhs lhs
       \<and> (\<forall>lhs' rhs'. OrderedMap_inv lhs' \<and> set lhs' = set lhs
              \<and> OrderedMap_inv rhs' \<and> set rhs' = set rhs
            \<longrightarrow> endingRefsDifferent lhs' rhs' = endingRefsDifferent lhs rhs)"
proof -
  have a: "\<not> endingRefsDifferent lhs rhs \<longleftrightarrow> set lhs = set rhs"
    using assms by (rule endingRefsDifferent_iff)
  have b: "\<not> endingRefsDifferent rhs lhs \<longleftrightarrow> set rhs = set lhs"
    using assms(2,1) by (rule endingRefsDifferent_iff)
  have c: "endingRefsDifferent lhs' rhs' = endingRefsDifferent lhs rhs"
    if "OrderedMap_inv lhs'" "set lhs' = set lhs" "OrderedMap_inv rhs'" "set rhs' = set rhs"
    for lhs' rhs'
    using endingRefsDifferent_iff[OF that(1,3)] a that(2,4) by auto
  from a b c show ?thesis by auto
qed

theorem endingRefsDifferent_order_insensitive_witness:
  "OrderedMap_inv [(Val 1 Argument, 2), (Val 2 (Instruction CallInst), 1)]
   \<and> OrderedMap_inv [(Val 2 (Instruction CallInst), 1), (Val 1 Argument, 2)]
   \<and> \<not> endingRefsDifferent [(Val 1 Argument, 2), (Val 2 (Instruction CallInst), 1)]
        [(Val 2 (Instruction CallInst), 1), (Val 1 Argument, 2)]
   \<and> \<not> endingRefsDifferent [(Val 2 (Instruction CallInst), 1), (Val 1 Argument, 2)]
        [(Val 1 Argument, 2), (Val 2 (Instruction CallInst), 1)]"
proof -
  let ?l = "[(Val 1 Argument, 2::int), (Val 2 (Instruction CallInst), 1)]"
  let ?r = "[(Val 2 (Instruction CallInst), 1::int), (Val 1 Argument, 2)]"
  have l: "OrderedMap_inv ?l" and r: "OrderedMap_inv ?r"
    by (simp_all add: OrderedMap_inv_def)
  have s: "set ?l = set ?r" by auto
  from endingRefsDifferent_order_insensitive [OF l r] s
  have "\<not> endingRefsDifferent ?l ?r" and "\<not> endingRefsDifferent ?r ?l"
    by blast+
  with l r show ?thesis by blast
qed

subsection \<open>Undef and the null pointer are never recorded\<close>

lemma ran_push_back_at:
  "ran (push_back_at m i v) \<subseteq> ran m \<union> {find_list m i @ [v]}"
  by (auto simp: push_back_at_def find_list_def ran_def split: option.splits if_splits)

lemma find_list_in_ran: "x \<in> set (find_list m i) \<Longrightarrow> \<exists>vs \<in> ran m. x \<in> set vs"
  by (cases "m i") (auto simp: find_list_def ran_def intro: exI[of _ i])

lemma refConsumed_keeps:
  assumes "no_undef_or_null rt" "refConsumed rt v i = Inr rt'"
  shows "no_undef_or_null rt'"
proof (cases "isa_UndefValue v \<or> isa_ConstantPointerNull v")
  case True
  with assms show ?thesis by (simp add: refConsumed_def)
next
  case False
  with assms(2) have rt': "rt' = rt\<lparr>refs_consumed := push_back_at (refs_consumed rt) i v\<rparr>"
    by (auto simp: refConsumed_def then_do_Inr_iff)
  show ?thesis
    unfolding no_undef_or_null_def
  proof (intro ballI)
    fix vs x assume vs: "vs \<in> ran (refs_consumed rt') \<union> ran (refs_used rt')" and x: "x \<in> set vs"
    from vs rt' ran_push_back_at[of "refs_consumed rt" i v]
    consider "vs \<in> ran (refs_consumed rt) \<union> ran (refs_used rt)"
      | "vs = find_list (refs_consumed rt) i @ [v]"
      by auto
    then show "\<not> isa_UndefValue x \<and> \<not> isa_ConstantPointerNull x"
    proof cases
      case 1
      with assms(1) x show ?thesis by (auto simp: no_undef_or_null_def)
    next
      case 2
      with x have "x = v \<or> x \<in> set (find_list (refs_consumed rt) i)" by auto
      then show ?thesis
        using False assms(1) find_list_in_ran[of x "refs_consumed rt" i]
        by (auto simp: no_undef_or_null_def)
    qed
  qed
qed

lemma refUsed_keeps:
  assumes "no_undef_or_null rt" "refUsed rt v i = Inr rt'"
  shows "no_undef_or_null rt'"
proof (cases "isa_UndefValue v \<or> isa_ConstantPointerNull v")
  case True
  with assms show ?thesis by (simp add: refUsed_def)
next
  case False
  with assms(2) have rt': "rt' = rt\<lparr>refs_used := push_back_at (refs_used rt) i v\<rparr>"
    by (auto simp: refUsed_def then_do_Inr_iff)
  show ?thesis
    unfolding no_undef_or_null_def
  proof (intro ballI)
    fix vs x assume vs: "vs \<in> ran (refs_consumed rt') \<union> ran (refs_used rt')" and x: "x \<in> set vs"
    from vs rt' ran_push_back_at[of "refs_used rt" i v]
    consider "vs \<in> ran (refs_consumed rt) \<union> ran (refs_used rt)"
      | "vs = find_list (refs_used rt) i @ [v]"
      by auto
    then show "\<not> isa_UndefValue x \<and> \<not> isa_ConstantPointerNull x"
    proof cases
      case 1
      with assms(1) x show ?thesis by (auto simp: no_undef_or_null_def)
    next
      case 2
      with x have "x = v \<or> x \<in> set (find_list (refs_used rt) i)" by auto
      then show ?thesis
        using False assms(1) find_list_in_ran[of x "refs_used rt" i]
        by (auto simp: no_undef_or_null_def)
    qed
  qed
qed

lemma annotate_all_keeps:
  "no_undef_or_null rt \<Longrightarrow> annotate_all rt as = Inr rt' \<Longrightarrow> no_undef_or_null rt'"
proof (induction as arbitrary: rt)
  case Nil
  then show ?case by simp
next
  case (Cons a as)
  from Cons.prems(2) obtain rt1 where a: "annotate rt a = Inr rt1"
    and rest: "annotate_all rt1 as = Inr rt'"
    by (auto simp: then_do_Inr_iff)
  from a Cons.prems(1) have "no_undef_or_null rt1"
    by (cases a) (auto dest: refConsumed_keeps refUsed_keeps)
  with rest show ?case by (rule Cons.IH[rotated])
qed

text \<open>
  Claim C10. For a value that is undef or a constant null pointer, \<open>refConsumed\<close> and
  \<open>refUsed\<close> return with the store as it was; and whatever the front end records from
  a store with no consumed or used sequences yet, no sequence of any instruction comes
  to hold such a value.
\<close>

theorem refConsumed_refUsed_skip_undef_and_null:
  assumes "isa_UndefValue v \<or> isa_ConstantPointerNull v"
  shows "refConsumed rt v i = Inr rt \<and> refUsed rt v i = Inr rt
       \<and> (\<forall>as rt'. annotate_all \<lparr>vars = vs, may_throw = mt, refs_consumed = Map.empty,
                       refs_used = Map.empty\<rparr> as = Inr rt'
            \<longrightarrow> v \<notin> set (find_list (refs_consumed rt') j)
              \<and> v \<notin> set (find_list (refs_used rt') j))"
proof -
  let ?rt0 = "\<lparr>vars = vs, may_throw = mt, refs_consumed = Map.empty, refs_used = Map.empty\<rparr>"
  have clean0: "no_undef_or_null ?rt0"
    by (simp add: no_undef_or_null_def)
  have "v \<notin> set (find_list (refs_consumed rt') j) \<and> v \<notin> set (find_list (refs_used rt') j)"
    if "annotate_all ?rt0 as = Inr rt'" for as rt'
  proof -
    from annotate_all_keeps[OF clean0 that] have c: "no_undef_or_null rt'" .
    show ?thesis
      using c assms find_list_in_ran[of v "refs_consumed rt'" j]
        find_list_in_ran[of v "refs_used rt'" j]
      by (auto simp: no_undef_or_null_def)
  qed
  with assms show ?thesis
    by (simp add: refConsumed_def refUsed_def)
qed


theorem refConsumed_refUsed_skip_undef_and_null_witness:
  "isa_UndefValue (Val 0 UndefValue)
   \<and> refConsumed \<lparr>vars = [Val 5 Argument \<mapsto> \<lparr>reftype = BORROWED, nullable = False\<rparr>],
         may_throw = {}, refs_consumed = Map.empty, refs_used = Map.empty\<rparr>
         (Val 0 UndefValue) (Val 7 (Instruction CallInst))
       = Inr \<lparr>vars = [Val 5 Argument \<mapsto> \<lparr>reftype = BORROWED, nullable = False\<rparr>],
         may_throw = {}, refs_consumed = Map.empty, refs_used = Map.empty\<rparr>
   \<and> (case annotate_all \<lparr>vars = [Val 5 Argument \<mapsto> \<lparr>reftype = BORROWED, nullable = False\<rparr>],
         may_throw = {}, refs_consumed = Map.empty, refs_used = Map.empty\<rparr>
         [Consumed (Val 0 UndefValue) (Val 7 (Instruction CallInst)),
          Consumed (Val 5 Argument) (Val 7 (Instruction CallInst)),
          Used (Val 0 UndefValue) (Val 7 (Instruction CallInst))] of
         Inl e \<Rightarrow> False
       | Inr rt' \<Rightarrow>
           find_list (refs_consumed rt') (Val 7 (Instruction CallInst)) = [Val 5 Argument]
           \<and> Val 0 UndefValue \<notin> set (find_list (refs_used rt') (Val 7 (Instruction CallInst))))"
proof -
  let ?rt = "\<lparr>vars = [Val 5 Argument \<mapsto> \<lparr>reftype = BORROWED, nullable = False\<rparr>],
         may_throw = {}, refs_consumed = Map.empty, refs_used = Map.empty\<rparr>"
  have u: "isa_UndefValue (Val 0 UndefValue) \<or> isa_ConstantPointerNull (Val 0 UndefValue)"
    by (simp add: isa_UndefValue_def)
  from refConsumed_refUsed_skip_undef_and_null [OF u, of ?rt "Val 7 (Instruction CallInst)"]
  have a: "refConsumed ?rt (Val 0 UndefValue) (Val 7 (Instruction CallInst)) = Inr ?rt"
    by blast
  have b: "annotate_all ?rt
         [Consumed (Val 0 UndefValue) (Val 7 (Instruction CallInst)),
          Consumed (Val 5 Argument) (Val 7 (Instruction CallInst)),
          Used (Val 0 UndefValue) (Val 7 (Instruction CallInst))]
        = Inr (?rt\<lparr>refs_consumed := [Val 7 (Instruction CallInst) \<mapsto> [Val 5 Argument]]\<rparr>)"
    by (simp add: refConsumed_def refUsed_def isa_UndefValue_def isa_ConstantPointerNull_def
        vars_lookup_def push_back_at_def)
  have c: "(case annotate_all ?rt
         [Consumed (Val 0 UndefValue) (Val 7 (Instruction CallInst)),
          Consumed (Val 5 Argument) (Val 7 (Instruction CallInst)),
          Used (Val 0 UndefValue) (Val 7 (Instruction CallInst))] of
         Inl e \<Rightarrow> False
       | Inr rt' \<Rightarrow>
           find_list (refs_consumed rt') (Val 7 (Instruction CallInst)) = [Val 5 Argument]
           \<and> Val 0 UndefValue \<notin> set (find_list (refs_used rt') (Val 7 (Instruction CallInst))))"
    unfolding b by (simp add: find_list_def)
  have d: "isa_UndefValue (Val 0 UndefValue)"
    by (simp add: isa_UndefValue_def)
  show ?thesis
    by (intro conjI d a c)
qed

subsection \<open>Emitting a decrement\<close>

lemma addDecrefs_not_nullable:
  assumes "\<not> isa_ConstantPointerNull v"
  shows "addDecrefs t n v False r pt =
     (if 1 < r then
        (more_than_one_decref,
         Some (if t then ReleaseAssertFailed 300 else KilledBySIGTRAP 268))
      else if r = 1 then ([CreatePatchpointCall DECREF_PP v pt], None)
      else ([], Some (AssertionFailed 278)))"
  using assms by (subst addDecrefs.simps) (auto simp del: addDecrefs.simps)

lemma addDecrefs_nullable:
  assumes "\<not> isa_ConstantPointerNull v"
  shows "addDecrefs t n v True r pt =
     (if 1 < r then
        (more_than_one_decref @
           (if t then
              [SplitBasicBlock pt, CreateBasicBlock ''decref'', EraseTerminator,
               CreateICmpEQ_null v, CreateCondBr, CreateBr (Val n (Instruction BranchInst))]
              @ more_than_one_decref
            else []),
         Some (if t then ReleaseAssertFailed 300 else KilledBySIGTRAP 268))
      else if r = 1 then
        ([SplitBasicBlock pt, CreateBasicBlock ''decref'', EraseTerminator,
          CreateICmpEQ_null v, CreateCondBr, CreateBr (Val n (Instruction BranchInst)),
          CreatePatchpointCall DECREF_PP v (Val n (Instruction BranchInst))], None)
      else ([], Some (AssertionFailed 278)))"
  using assms
  by (subst addDecrefs.simps)
     (auto simp del: addDecrefs.simps simp: addDecrefs_not_nullable Let_def)

lemma addDecrefs_null_constant:
  assumes "isa_ConstantPointerNull v"
  shows "addDecrefs t n v nl r pt =
     ((if 1 < r then more_than_one_decref else []),
      (if 1 < r \<and> \<not> t then Some (KilledBySIGTRAP 268)
       else if nl then None else Some (AssertionFailed 274)))"
  using assms by (subst addDecrefs.simps) (auto simp del: addDecrefs.simps)

text \<open>
  Claim C5, as amended. The claim says that a decrement with a count above 1 is emitted
  with a warning at most. Only the count 1 is accepted. For a value that is not a
  constant null pointer, \<open>addDecrefs\<close> with the count 1 returns, having printed no
  warning and made one patchpoint call, behind a null check when the value is
  nullable. With a count above 1 it prints the warning and raises \<^verbatim>\<open>SIGTRAP\<close> and
  never returns: the signal ends the process, or the release assertion
  \<^verbatim>\<open>num_refs == 1\<close> of line 300 fails, for a nullable value after the null check has
  been built and the warning and the signal have been repeated; no patchpoint call is
  made. For a constant null pointer nothing is emitted whatever the count: a count
  above 1 prints the warning and raises the signal, and the call then returns when the
  signal is survived and the value is flagged nullable, and fails the assertion of
  line 274 when the value is not flagged nullable.
\<close>

theorem addDecrefs_only_single_count:
  "(\<not> isa_ConstantPointerNull v \<and> r = 1 \<longrightarrow>
      addDecrefs t n v nl r pt =
        (if nl then
           [SplitBasicBlock pt, CreateBasicBlock ''decref'', EraseTerminator,
            CreateICmpEQ_null v, CreateCondBr, CreateBr (Val n (Instruction BranchInst)),
            CreatePatchpointCall DECREF_PP v (Val n (Instruction BranchInst))]
         else [CreatePatchpointCall DECREF_PP v pt],
         None))
   \<and> (\<not> isa_ConstantPointerNull v \<and> 1 < r \<longrightarrow>
      addDecrefs t n v nl r pt =
        ([Printf ''Whoa more than one decref??\<newline>'', Raise_SIGTRAP] @
           (if t \<and> nl then
              [SplitBasicBlock pt, CreateBasicBlock ''decref'', EraseTerminator,
               CreateICmpEQ_null v, CreateCondBr, CreateBr (Val n (Instruction BranchInst)),
               Printf ''Whoa more than one decref??\<newline>'', Raise_SIGTRAP]
            else []),
         Some (if t then ReleaseAssertFailed 300 else KilledBySIGTRAP 268)))
   \<and> (isa_ConstantPointerNull v \<and> 1 \<le> r \<longrightarrow>
      addDecrefs t n v nl r pt =
        ((if 1 < r then [Printf ''Whoa more than one decref??\<newline>'', Raise_SIGTRAP]
          else []),
         (if 1 < r \<and> \<not> t then Some (KilledBySIGTRAP 268)
          else if nl then None else Some (AssertionFailed 274))))"
proof (intro conjI impI)
  assume "\<not> isa_ConstantPointerNull v \<and> r = 1"
  then show "addDecrefs t n v nl r pt =
        (if nl then
           [SplitBasicBlock pt, CreateBasicBlock ''decref'', EraseTerminator,
            CreateICmpEQ_null v, CreateCondBr, CreateBr (Val n (Instruction BranchInst)),
            CreatePatchpointCall DECREF_PP v (Val n (Instruction BranchInst))]
         else [CreatePatchpointCall DECREF_PP v pt],
         None)"
    by (cases nl)
       (simp_all add: addDecrefs_nullable addDecrefs_not_nullable del: addDecrefs.simps)
next
  assume "\<not> isa_ConstantPointerNull v \<and> 1 < r"
  then show "addDecrefs t n v nl r pt =
        ([Printf ''Whoa more than one decref??\<newline>'', Raise_SIGTRAP] @
           (if t \<and> nl then
              [SplitBasicBlock pt, CreateBasicBlock ''decref'', EraseTerminator,
               CreateICmpEQ_null v, CreateCondBr, CreateBr (Val n (Instruction BranchInst)),
               Printf ''Whoa more than one decref??\<newline>'', Raise_SIGTRAP]
            else []),
         Some (if t then ReleaseAssertFailed 300 else KilledBySIGTRAP 268))"
    by (cases nl)
       (simp_all add: addDecrefs_nullable addDecrefs_not_nullable more_than_one_decref_def
          del: addDecrefs.simps)
next
  assume "isa_ConstantPointerNull v \<and> 1 \<le> r"
  then show "addDecrefs t n v nl r pt =
        ((if 1 < r then [Printf ''Whoa more than one decref??\<newline>'', Raise_SIGTRAP]
          else []),
         (if 1 < r \<and> \<not> t then Some (KilledBySIGTRAP 268)
          else if nl then None else Some (AssertionFailed 274)))"
    by (simp add: addDecrefs_null_constant more_than_one_decref_def del: addDecrefs.simps)
qed

theorem addDecrefs_only_single_count_witness:
  "addDecrefs True 100 (Val 1 (Instruction CallInst)) False 1 (Val 2 (Instruction CallInst))
       = ([CreatePatchpointCall DECREF_PP (Val 1 (Instruction CallInst))
             (Val 2 (Instruction CallInst))], None)
   \<and> addDecrefs True 100 (Val 1 (Instruction CallInst)) False 3 (Val 2 (Instruction CallInst))
       = ([Printf ''Whoa more than one decref??\<newline>'', Raise_SIGTRAP],
          Some (ReleaseAssertFailed 300))
   \<and> addDecrefs True 100 (Val 9 ConstantPointerNull) True 2 (Val 2 (Instruction CallInst))
       = ([Printf ''Whoa more than one decref??\<newline>'', Raise_SIGTRAP], None)"
proof -
  have h: "\<not> isa_ConstantPointerNull (Val 1 (Instruction CallInst))"
    and k: "isa_ConstantPointerNull (Val 9 ConstantPointerNull)"
    by (simp_all add: isa_ConstantPointerNull_def)
  from h addDecrefs_only_single_count
    [of "Val 1 (Instruction CallInst)" 1 True 100 False "Val 2 (Instruction CallInst)"]
  have a: "addDecrefs True 100 (Val 1 (Instruction CallInst)) False 1 (Val 2 (Instruction CallInst))
       = ([CreatePatchpointCall DECREF_PP (Val 1 (Instruction CallInst))
             (Val 2 (Instruction CallInst))], None)"
    by simp
  from h addDecrefs_only_single_count
    [of "Val 1 (Instruction CallInst)" 3 True 100 False "Val 2 (Instruction CallInst)"]
  have b: "addDecrefs True 100 (Val 1 (Instruction CallInst)) False 3 (Val 2 (Instruction CallInst))
       = ([Printf ''Whoa more than one decref??\<newline>'', Raise_SIGTRAP],
          Some (ReleaseAssertFailed 300))"
    by simp
  from k addDecrefs_only_single_count
    [of "Val 9 ConstantPointerNull" 2 True 100 True "Val 2 (Instruction CallInst)"]
  have c: "addDecrefs True 100 (Val 9 ConstantPointerNull) True 2 (Val 2 (Instruction CallInst))
       = ([Printf ''Whoa more than one decref??\<newline>'', Raise_SIGTRAP], None)"
    by simp
  show ?thesis by (intro conjI a b c)
qed

text \<open>
  The claim C5 as stated fails at the count 2 for a call result: the warning is
  printed and the signal raised, and whether the process survives the signal or not,
  the call does not return and no decrement is emitted.
\<close>

theorem addDecrefs_count_two_counterexample:
  "addDecrefs True 100 (Val 1 (Instruction CallInst)) False 2 (Val 2 (Instruction CallInst))
     = ([Printf ''Whoa more than one decref??\<newline>'', Raise_SIGTRAP],
        Some (ReleaseAssertFailed 300))
   \<and> addDecrefs False 100 (Val 1 (Instruction CallInst)) False 2 (Val 2 (Instruction CallInst))
     = ([Printf ''Whoa more than one decref??\<newline>'', Raise_SIGTRAP],
        Some (KilledBySIGTRAP 268))"
  by (simp add: isa_ConstantPointerNull_def more_than_one_decref_def)

subsection \<open>The entry block\<close>

lemma entry_loop_ok:
  assumes "\<forall>p \<in> set er. snd p \<noteq> 0 \<and> entry_value_ok f (fst p)
             \<and> reftype (vars_lookup rt (fst p)) = BORROWED"
  shows "entry_loop rt f bb er incs = Inr (incs @ map (entry_incref rt bb) er)"
  using assms by (induction er arbitrary: incs) (simp_all add: entry_incref_def)

lemma entry_loop_fails:
  assumes "\<exists>p \<in> set er. snd p = 0 \<or> \<not> entry_value_ok f (fst p)
             \<or> reftype (vars_lookup rt (fst p)) \<noteq> BORROWED"
  shows "\<exists>l. entry_loop rt f bb er incs = Inl (AssertionFailed l)"
  using assms
proof (induction er arbitrary: incs)
  case Nil
  then show ?case by simp
next
  case (Cons p ps)
  show ?case
  proof (cases "snd p \<noteq> 0 \<and> entry_value_ok f (fst p)
                 \<and> reftype (vars_lookup rt (fst p)) = BORROWED")
    case True
    with Cons.prems have "\<exists>q \<in> set ps. snd q = 0 \<or> \<not> entry_value_ok f (fst q)
             \<or> reftype (vars_lookup rt (fst q)) \<noteq> BORROWED"
      by auto
    from Cons.IH[OF this] True show ?thesis by simp
  next
    case False
    then show ?thesis by (auto simp: assert_at_def)
  qed
qed

text \<open>
  Claim C7. In the entry block, when every value left in \<^verbatim>\<open>ending_refs\<close> is a global
  variable, a constant or an argument of the function and is \<^verbatim>\<open>BORROWED\<close> (and, as
  everywhere, no count is zero), the step plans for each of them, in the order of the
  map, an increment of its count at the top of the block (the edge site with the block
  as destination and no source block) and leaves \<^verbatim>\<open>ending_refs\<close> empty. When some
  value left is of no such kind or is not \<^verbatim>\<open>BORROWED\<close>, the step ends in a failed
  assertion.
\<close>

theorem entry_block_increments:
  assumes "Some bb = front f"
  shows "((\<forall>p \<in> set (ending_refs st).
            snd p \<noteq> 0
            \<and> (isa_GlobalVariable (fst p) \<or> isa_Constant (fst p) \<or> fst p \<in> set (args f))
            \<and> reftype (vars_lookup rt (fst p)) = BORROWED)
          \<longrightarrow> entry_step rt f bb st =
                Inr (st\<lparr>increfs := increfs st @
                          map (\<lambda>p. RefOp (fst p) (nullable (vars_lookup rt (fst p))) (snd p)
                                     None (Some bb) None) (ending_refs st),
                        ending_refs := []\<rparr>))
       \<and> ((\<exists>p \<in> set (ending_refs st).
             \<not> (isa_GlobalVariable (fst p) \<or> isa_Constant (fst p) \<or> fst p \<in> set (args f))
             \<or> reftype (vars_lookup rt (fst p)) \<noteq> BORROWED)
          \<longrightarrow> (\<exists>l. entry_step rt f bb st = Inl (AssertionFailed l)))"
proof (intro conjI impI)
  assume ok: "\<forall>p \<in> set (ending_refs st).
            snd p \<noteq> 0
            \<and> (isa_GlobalVariable (fst p) \<or> isa_Constant (fst p) \<or> fst p \<in> set (args f))
            \<and> reftype (vars_lookup rt (fst p)) = BORROWED"
  then have "entry_loop rt f bb (ending_refs st) (increfs st)
               = Inr (increfs st @ map (entry_incref rt bb) (ending_refs st))"
    by (intro entry_loop_ok) (simp add: entry_value_ok_def)
  moreover have "entry_incref rt bb
      = (\<lambda>p. RefOp (fst p) (nullable (vars_lookup rt (fst p))) (snd p) None (Some bb) None)"
    by (rule ext) (simp add: entry_incref_def)
  ultimately show "entry_step rt f bb st =
                Inr (st\<lparr>increfs := increfs st @
                          map (\<lambda>p. RefOp (fst p) (nullable (vars_lookup rt (fst p))) (snd p)
                                     None (Some bb) None) (ending_refs st),
                        ending_refs := []\<rparr>)"
    using assms by (simp add: entry_step_def OrderedMap_clear_def)
next
  assume "\<exists>p \<in> set (ending_refs st).
             \<not> (isa_GlobalVariable (fst p) \<or> isa_Constant (fst p) \<or> fst p \<in> set (args f))
             \<or> reftype (vars_lookup rt (fst p)) \<noteq> BORROWED"
  then have "\<exists>p \<in> set (ending_refs st). snd p = 0 \<or> \<not> entry_value_ok f (fst p)
             \<or> reftype (vars_lookup rt (fst p)) \<noteq> BORROWED"
    by (auto simp: entry_value_ok_def)
  from entry_loop_fails[OF this, of bb "increfs st"]
  show "\<exists>l. entry_step rt f bb st = Inl (AssertionFailed l)"
    using assms by (auto simp: entry_step_def)
qed

theorem entry_block_increments_witness:
  "Some 0 = front \<lparr>layout = [0, 1], body = (\<lambda>b. []), args = [Val 1 Argument], fresh = 10\<rparr>
   \<and> entry_step
       \<lparr>vars = [Val 1 Argument \<mapsto> \<lparr>reftype = BORROWED, nullable = True\<rparr>],
        may_throw = {}, refs_consumed = Map.empty, refs_used = Map.empty\<rparr>
       \<lparr>layout = [0, 1], body = (\<lambda>b. []), args = [Val 1 Argument], fresh = 10\<rparr> 0
       \<lparr>been_run = True, starting_refs = [], ending_refs = [(Val 1 Argument, 2)],
        increfs = [], decrefs = [], cxx_fixups = []\<rparr>
     = Inr \<lparr>been_run = True, starting_refs = [], ending_refs = [],
            increfs = [RefOp (Val 1 Argument) True 2 None (Some 0) None],
            decrefs = [], cxx_fixups = []\<rparr>
   \<and> (\<exists>l. entry_step
       \<lparr>vars = [Val 3 (Instruction CallInst) \<mapsto> \<lparr>reftype = OWNED, nullable = False\<rparr>],
        may_throw = {}, refs_consumed = Map.empty, refs_used = Map.empty\<rparr>
       \<lparr>layout = [0, 1], body = (\<lambda>b. []), args = [Val 1 Argument], fresh = 10\<rparr> 0
       \<lparr>been_run = True, starting_refs = [], ending_refs = [(Val 3 (Instruction CallInst), 1)],
        increfs = [], decrefs = [], cxx_fixups = []\<rparr>
     = Inl (AssertionFailed l))"
proof -
  let ?f = "\<lparr>layout = [0, 1], body = (\<lambda>b. []), args = [Val 1 Argument], fresh = 10\<rparr>"
  let ?rt1 = "\<lparr>vars = [Val 1 Argument \<mapsto> \<lparr>reftype = BORROWED, nullable = True\<rparr>],
        may_throw = {}, refs_consumed = Map.empty, refs_used = Map.empty\<rparr>"
  let ?rt2 = "\<lparr>vars = [Val 3 (Instruction CallInst) \<mapsto> \<lparr>reftype = OWNED, nullable = False\<rparr>],
        may_throw = {}, refs_consumed = Map.empty, refs_used = Map.empty\<rparr>"
  let ?st1 = "\<lparr>been_run = True, starting_refs = [], ending_refs = [(Val 1 Argument, 2)],
        increfs = [], decrefs = [], cxx_fixups = []\<rparr>"
  let ?st2 = "\<lparr>been_run = True, starting_refs = [], ending_refs = [(Val 3 (Instruction CallInst), 1)],
        increfs = [], decrefs = [], cxx_fixups = []\<rparr>"
  have h: "Some (0::nat) = front ?f"
    by (simp add: front_def)
  from entry_block_increments [OF h, of ?st1 ?rt1]
  have a: "entry_step ?rt1 ?f 0 ?st1
     = Inr \<lparr>been_run = True, starting_refs = [], ending_refs = [],
            increfs = [RefOp (Val 1 Argument) True 2 None (Some 0) None],
            decrefs = [], cxx_fixups = []\<rparr>"
    by (simp add: vars_lookup_def)
  from entry_block_increments [OF h, of ?st2 ?rt2]
  have b: "\<exists>l. entry_step ?rt2 ?f 0 ?st2 = Inl (AssertionFailed l)"
    by (simp add: vars_lookup_def isa_GlobalVariable_def isa_Constant_def)
  show ?thesis by (intro conjI h a b)
qed

subsection \<open>The insertion point of an edge\<close>

lemma find_first_match:
  assumes "\<forall>J \<in> set pre. \<not> P J" "P I"
  shows "find P (pre @ I # post) = Some I"
  using assms by (induction pre) simp_all

lemma first_insertion_point_landing_pad:
  assumes "insts = pre @ I # post" "length pre = 3"
    "isa_opcode LandingPadInst (inst_val (hd insts))"
  shows "first_insertion_point insts = Inr (inst_val I)"
proof -
  from assms(1,2) obtain a b c where pre: "pre = [a, b, c]"
    by (cases pre; cases "tl pre"; cases "tl (tl pre)") auto
  with assms show ?thesis
    by (simp add: first_insertion_point_def)
qed

lemma first_insertion_point_plain:
  assumes "insts = pre @ I # post"
    "\<not> isa_opcode LandingPadInst (inst_val (hd insts))"
    "\<forall>J \<in> set pre. isa_opcode PHINode (inst_val J) \<or> isa_opcode AllocaInst (inst_val J)"
    "\<not> isa_opcode PHINode (inst_val I)" "\<not> isa_opcode AllocaInst (inst_val I)"
  shows "first_insertion_point insts = Inr (inst_val I)"
proof -
  have "find (\<lambda>I. \<not> isa_opcode PHINode (inst_val I) \<and> \<not> isa_opcode AllocaInst (inst_val I))
          (pre @ I # post) = Some I"
    using assms(3-5) by (intro find_first_match) auto
  then have found: "find (\<lambda>I. \<not> isa_opcode PHINode (inst_val I)
                        \<and> \<not> isa_opcode AllocaInst (inst_val I)) insts = Some I"
    by (simp only: assms(1))
  have "insts \<noteq> []"
    using assms(1) by simp
  then obtain i0 rest where ir: "insts = i0 # rest"
    by (meson neq_Nil_conv)
  with assms(2) have "\<not> isa_opcode LandingPadInst (inst_val i0)"
    by simp
  then have "first_insertion_point (i0 # rest) = Inr (inst_val I)"
    using found unfolding ir by (simp add: first_insertion_point_def)
  then show ?thesis by (simp only: ir)
qed

text \<open>
  Claim C8. Let the destination \<open>to\<close> of an edge site have one predecessor (the code
  asks for one at most) and the cache no entry for the key \<open>(to, from_bb)\<close>. Then
  \<open>findInsertionPoint\<close> answers the first instruction of \<open>to\<close> that is neither a phi
  nor an alloca or, when \<open>to\<close> begins with a landing pad, its fourth instruction; the
  function is left as it was, the answer is stored under the key, and asking again
  with the same key answers the same instruction and changes nothing.
\<close>

theorem findInsertionPoint_single_predecessor:
  assumes "numPredecessors f to \<le> 1"
    and "from_bb \<noteq> Some to"
    and "cache (to, from_bb) = None"
    and "body f to = pre @ I # post"
    and "if isa_opcode LandingPadInst (inst_val (hd (body f to))) then length pre = 3
         else (\<forall>J \<in> set pre. isa_opcode PHINode (inst_val J) \<or> isa_opcode AllocaInst (inst_val J))
              \<and> \<not> isa_opcode PHINode (inst_val I) \<and> \<not> isa_opcode AllocaInst (inst_val I)"
  shows "findInsertionPoint f cache (Some to) from_bb
           = Inr (inst_val I, f, cache((to, from_bb) \<mapsto> inst_val I))
       \<and> findInsertionPoint f (cache((to, from_bb) \<mapsto> inst_val I)) (Some to) from_bb
           = Inr (inst_val I, f, cache((to, from_bb) \<mapsto> inst_val I))"
proof -
  have pt: "first_insertion_point (body f to) = Inr (inst_val I)"
  proof (cases "isa_opcode LandingPadInst (inst_val (hd (body f to)))")
    case True
    with assms(4,5) show ?thesis
      by (intro first_insertion_point_landing_pad[of _ pre I post]) simp_all
  next
    case False
    with assms(4,5) show ?thesis
      by (intro first_insertion_point_plain[of _ pre I post]) simp_all
  qed
  have ne: "Some to \<noteq> from_bb"
    using assms(2) by auto
  have first: "findInsertionPoint f cache (Some to) from_bb
           = Inr (inst_val I, f, cache((to, from_bb) \<mapsto> inst_val I))"
    using assms(1,3) ne pt by (simp add: findInsertionPoint_def)
  have again: "findInsertionPoint f (cache((to, from_bb) \<mapsto> inst_val I)) (Some to) from_bb
           = Inr (inst_val I, f, cache((to, from_bb) \<mapsto> inst_val I))"
    using ne by (simp add: findInsertionPoint_def)
  from first again show ?thesis by simp
qed


theorem findInsertionPoint_single_predecessor_witness:
  "numPredecessors example_function 1 = 1
   \<and> findInsertionPoint example_function Map.empty (Some 1) (Some 0)
       = Inr (Val 14 (Instruction CallInst), example_function,
              [(1, Some 0) \<mapsto> Val 14 (Instruction CallInst)])
   \<and> findInsertionPoint example_function [(1, Some 0) \<mapsto> Val 14 (Instruction CallInst)]
         (Some 1) (Some 0)
       = Inr (Val 14 (Instruction CallInst), example_function,
              [(1, Some 0) \<mapsto> Val 14 (Instruction CallInst)])"
proof -
  let ?pre = "[\<lparr>inst_val = Val 12 (Instruction PHINode), operands = [Val 10 (Instruction CallInst)],
                        inst_blocks = [0]\<rparr>,
               \<lparr>inst_val = Val 13 (Instruction AllocaInst), operands = [], inst_blocks = []\<rparr>]"
  let ?I = "\<lparr>inst_val = Val 14 (Instruction CallInst),
                        operands = [Val 12 (Instruction PHINode)], inst_blocks = []\<rparr>"
  let ?post = "[\<lparr>inst_val = Val 15 (Instruction OtherTerminator), operands = [],
                        inst_blocks = []\<rparr>]"
  have n: "numPredecessors example_function 1 = 1"
    by (simp add: numPredecessors_def example_function_def terminator_successors_def
        getTerminator_def isa_TerminatorInst_def isa_opcode_def)
  then have h1: "numPredecessors example_function 1 \<le> 1"
    by simp
  have h2: "Some (0::nat) \<noteq> Some 1"
    by simp
  have h3: "(Map.empty :: InsertionCache) (1, Some 0) = None"
    by simp
  have h4: "body example_function 1 = ?pre @ ?I # ?post"
    by (simp add: example_function_def)
  have h5: "if isa_opcode LandingPadInst (inst_val (hd (body example_function 1)))
            then length ?pre = 3
            else (\<forall>J \<in> set ?pre. isa_opcode PHINode (inst_val J)
                     \<or> isa_opcode AllocaInst (inst_val J))
              \<and> \<not> isa_opcode PHINode (inst_val ?I) \<and> \<not> isa_opcode AllocaInst (inst_val ?I)"
    by (simp add: example_function_def isa_opcode_def)
  from findInsertionPoint_single_predecessor [OF h1 h2 h3 h4 h5] n
  show ?thesis by simp
qed

subsection \<open>Merging the successors\<close>

lemma this_refs_eq: "this_refs er v = OrderedMap_at er v"
  by (simp add: this_refs_def OrderedMap_at_def OrderedMap_count_def split: option.splits)

lemma this_refs_nonneg:
  assumes "\<forall>p \<in> set er. 0 < snd p"
  shows "0 \<le> this_refs er v"
proof (cases "map_of er v")
  case None
  then show ?thesis by (simp add: this_refs_def OrderedMap_count_def)
next
  case (Some c)
  then have "(v, c) \<in> set er" by (rule map_of_SomeD)
  with assms have "0 < c" by force
  with Some show ?thesis by (simp add: this_refs_eq OrderedMap_at_def)
qed

lemma this_refs_pos_iff:
  assumes "\<forall>p \<in> set er. 0 < snd p"
  shows "0 < this_refs er v \<longleftrightarrow> v \<in> fst ` set er"
proof (cases "map_of er v")
  case None
  then show ?thesis
    by (simp add: this_refs_def OrderedMap_count_def map_of_eq_None_iff)
next
  case (Some c)
  then have in_er: "(v, c) \<in> set er" by (rule map_of_SomeD)
  with assms have "0 < c" by force
  moreover from in_er have "v \<in> fst ` set er" by force
  ultimately show ?thesis using Some by (simp add: this_refs_eq OrderedMap_at_def)
qed

lemma Min_insert_min:
  assumes "finite S"
  shows "Min (insert (min x m) S) = Min (insert m (insert x S))"
proof (cases "S = {}")
  case True
  then show ?thesis by (simp add: min.commute)
next
  case False
  with assms show ?thesis by (simp add: min.assoc min.left_commute min.commute)
qed

lemma min_refs_loop_Min:
  assumes "positive_counts info" "0 \<le> m"
  shows "min_refs_loop v info m = Min (insert m (demands info v))"
  using assms
proof (induction info arbitrary: m)
  case Nil
  then show ?case by (simp add: demands_def)
next
  case (Cons s rest)
  let ?x = "this_refs (fst s) v"
  from Cons.prems(1) have pos_s: "\<forall>p \<in> set (fst s). 0 < snd p"
    and pos_rest: "positive_counts rest"
    by (simp_all add: positive_counts_def)
  have x0: "0 \<le> ?x" using pos_s by (rule this_refs_nonneg)
  have step: "(if OrderedMap_count (fst s) v then min (OrderedMap_at (fst s) v) m else 0)
                = min ?x m"
    using Cons.prems(2) by (simp add: this_refs_def)
  have "min_refs_loop v (s # rest) m = min_refs_loop v rest (min ?x m)"
    by (simp only: min_refs_loop.simps step)
  also have "\<dots> = Min (insert (min ?x m) (demands rest v))"
    using pos_rest x0 Cons.prems(2) by (intro Cons.IH) simp_all
  also have "\<dots> = Min (insert m (insert ?x (demands rest v)))"
    by (intro Min_insert_min) (simp add: demands_def)
  also have "insert ?x (demands rest v) = demands (s # rest) v"
    by (simp add: demands_def)
  finally show ?case .
qed

lemma min_refs_loop_le:
  assumes "positive_counts info" "s \<in> set info"
  shows "min_refs_loop v info 1000000000 \<le> this_refs (fst s) v"
proof -
  have "min_refs_loop v info 1000000000 = Min (insert 1000000000 (demands info v))"
    using assms(1) by (intro min_refs_loop_Min) simp_all
  moreover have "this_refs (fst s) v \<in> insert 1000000000 (demands info v)"
    using assms(2) by (simp add: demands_def)
  moreover have "finite (insert 1000000000 (demands info v))"
    by (simp add: demands_def)
  ultimately show ?thesis by (simp add: Min_le)
qed

lemma min_refs_loop_nonneg:
  assumes "positive_counts info"
  shows "0 \<le> min_refs_loop v info 1000000000"
proof -
  have eq: "min_refs_loop v info 1000000000 = Min (insert 1000000000 (demands info v))"
    using assms by (intro min_refs_loop_Min) simp_all
  have "0 \<le> x" if "x \<in> insert 1000000000 (demands info v)" for x
  proof (cases "x = 1000000000")
    case True
    then show ?thesis by simp
  next
    case False
    with that obtain s where "s \<in> set info" "x = this_refs (fst s) v"
      by (auto simp: demands_def)
    with assms show ?thesis
      by (simp add: positive_counts_def this_refs_nonneg)
  qed
  then have "\<forall>x \<in> insert 1000000000 (demands info v). 0 \<le> x"
    by blast
  then show ?thesis
    unfolding eq by (intro Min.boundedI) (auto simp: demands_def)
qed

lemma decrement_only_owned:
  assumes "positive_counts info" "s \<in> set info"
    "this_refs (fst s) v < merged_refs rt info v"
  shows "reftype (vars_lookup rt v) = OWNED \<and> this_refs (fst s) v = 0
         \<and> merged_refs rt info v = 1"
proof -
  have le: "min_refs_loop v info 1000000000 \<le> this_refs (fst s) v"
    using assms(1,2) by (rule min_refs_loop_le)
  have "0 \<le> this_refs (fst s) v"
    using assms(1,2) by (auto simp: positive_counts_def intro!: this_refs_nonneg)
  with le assms(3) show ?thesis
    by (auto simp: merged_refs_def Let_def split: if_splits)
qed

lemma edge_ops_loop_result:
  assumes "\<forall>s \<in> set ss. this_refs (fst s) v < m \<longrightarrow> reftype rs = OWNED"
  shows "edge_ops_loop rs bbg idx v m ss st =
     Inr (st\<lparr>increfs := increfs st @
              map (\<lambda>s. RefOp v (nullable rs) (this_refs (fst s) v - m) None
                          (Some (bbs bbg ! snd s)) (Some (bbs bbg ! idx)))
                (filter (\<lambda>s. m < this_refs (fst s) v) ss),
            decrefs := decrefs st @
              map (\<lambda>s. RefOp v (nullable rs) (m - this_refs (fst s) v) None
                          (Some (bbs bbg ! snd s)) (Some (bbs bbg ! idx)))
                (filter (\<lambda>s. this_refs (fst s) v < m) ss)\<rparr>)"
  using assms
proof (induction ss arbitrary: st)
  case Nil
  then show ?case by simp
next
  case (Cons s ss)
  have "\<forall>s \<in> set ss. this_refs (fst s) v < m \<longrightarrow> reftype rs = OWNED"
    using Cons.prems by simp
  note IH = Cons.IH[OF this]
  consider (gt) "m < this_refs (fst s) v" | (lt) "this_refs (fst s) v < m"
    | (eq) "this_refs (fst s) v = m"
    by linarith
  then show ?case
  proof cases
    case gt
    then show ?thesis by (simp add: IH)
  next
    case lt
    with Cons.prems have "reftype rs = OWNED" by simp
    with lt show ?thesis by (simp add: IH)
  next
    case eq
    then show ?thesis by (simp add: IH)
  qed
qed

lemma collect_tracked_ok:
  assumes "\<forall>p \<in> set er. 0 < snd p" "distinct tv"
  shows "\<exists>tv'. collect_tracked tv er = Inr tv' \<and> set tv' = set tv \<union> fst ` set er
           \<and> distinct tv'"
  using assms
proof (induction er arbitrary: tv)
  case Nil
  then show ?case by simp
next
  case (Cons p ps)
  let ?tv1 = "if fst p \<in> set tv then tv else tv @ [fst p]"
  have d1: "distinct ?tv1" using Cons.prems(2) by simp
  have "\<forall>q \<in> set ps. 0 < snd q" using Cons.prems(1) by simp
  from Cons.IH[OF this d1] obtain tv' where
    "collect_tracked ?tv1 ps = Inr tv'" "set tv' = set ?tv1 \<union> fst ` set ps" "distinct tv'"
    by blast
  moreover have "0 < snd p" using Cons.prems(1) by simp
  ultimately show ?case by (auto split: if_splits)
qed

lemma tracked_values_ok:
  assumes "positive_counts info" "distinct tv"
  shows "\<exists>tv'. tracked_values tv info = Inr tv' \<and> set tv' = set tv \<union> successor_keys info
           \<and> distinct tv'"
  using assms
proof (induction info arbitrary: tv)
  case Nil
  then show ?case by (simp add: successor_keys_def)
next
  case (Cons s rest)
  from Cons.prems(1) have pos_s: "\<forall>p \<in> set (fst s). 0 < snd p"
    and pos_rest: "positive_counts rest"
    by (simp_all add: positive_counts_def)
  from collect_tracked_ok[OF pos_s Cons.prems(2)] obtain tv1 where
    tv1: "collect_tracked tv (fst s) = Inr tv1" "set tv1 = set tv \<union> fst ` set (fst s)"
      "distinct tv1"
    by blast
  from Cons.IH[OF pos_rest tv1(3)] obtain tv' where
    "tracked_values tv1 rest = Inr tv'" "set tv' = set tv1 \<union> successor_keys rest" "distinct tv'"
    by blast
  with tv1 show ?case by (auto simp: successor_keys_def)
qed

lemma OrderedMap_store_fresh:
  "k \<notin> fst ` set m \<Longrightarrow> OrderedMap_store m k c = m @ [(k, c)]"
  by (induction m) auto

lemma OrderedMap_count_iff: "OrderedMap_count m k \<longleftrightarrow> k \<in> fst ` set m"
  by (simp add: OrderedMap_count_def map_of_eq_None_iff)

lemma merge_value_result:
  assumes "vars_count rt v" "positive_counts info" "v \<notin> fst ` set (starting_refs st)"
  shows "merge_value rt bbg idx info v st =
     Inr (st\<lparr>increfs := increfs st @ edge_increfs rt bbg idx info v,
            decrefs := decrefs st @ edge_decrefs rt bbg idx info v,
            starting_refs := starting_refs st @
              (if merged_refs rt info v \<noteq> 0 then [(v, merged_refs rt info v)] else [])\<rparr>)"
proof -
  have owned: "\<forall>s \<in> set info. this_refs (fst s) v < merged_refs rt info v
                 \<longrightarrow> reftype (vars_lookup rt v) = OWNED"
    using decrement_only_owned[OF assms(2)] by blast
  show ?thesis
    using assms(1,3)
    by (simp add: merge_value_def edge_ops_loop_result[OF owned] edge_increfs_def
        edge_decrefs_def OrderedMap_store_fresh OrderedMap_count_iff Let_def)
qed

lemma merge_values_result:
  assumes "\<forall>v \<in> set tv. vars_count rt v" "positive_counts info" "distinct tv"
    "set tv \<inter> fst ` set (starting_refs st) = {}"
  shows "merge_values rt bbg idx info tv st =
     Inr (st\<lparr>increfs := increfs st @ concat (map (edge_increfs rt bbg idx info) tv),
            decrefs := decrefs st @ concat (map (edge_decrefs rt bbg idx info) tv),
            starting_refs := starting_refs st @
              map (\<lambda>v. (v, merged_refs rt info v))
                (filter (\<lambda>v. merged_refs rt info v \<noteq> 0) tv)\<rparr>)"
  using assms
proof (induction tv arbitrary: st)
  case Nil
  then show ?case by simp
next
  case (Cons v vs)
  let ?st1 = "st\<lparr>increfs := increfs st @ edge_increfs rt bbg idx info v,
            decrefs := decrefs st @ edge_decrefs rt bbg idx info v,
            starting_refs := starting_refs st @
              (if merged_refs rt info v \<noteq> 0 then [(v, merged_refs rt info v)] else [])\<rparr>"
  have v: "vars_count rt v" "v \<notin> fst ` set (starting_refs st)"
    using Cons.prems(1,4) by auto
  have step: "merge_value rt bbg idx info v st = Inr ?st1"
    using v(1) Cons.prems(2) v(2) by (rule merge_value_result)
  have "set vs \<inter> fst ` set (starting_refs ?st1) = {}"
    using Cons.prems(3,4) by auto
  moreover have "\<forall>x \<in> set vs. vars_count rt x" "distinct vs"
    using Cons.prems(1,3) by simp_all
  ultimately have "merge_values rt bbg idx info vs ?st1 =
     Inr (?st1\<lparr>increfs := increfs ?st1 @ concat (map (edge_increfs rt bbg idx info) vs),
            decrefs := decrefs ?st1 @ concat (map (edge_decrefs rt bbg idx info) vs),
            starting_refs := starting_refs ?st1 @
              map (\<lambda>v. (v, merged_refs rt info v))
                (filter (\<lambda>v. merged_refs rt info v \<noteq> 0) vs)\<rparr>)"
    using Cons.prems(2) by (intro Cons.IH) simp_all
  with step show ?case by simp
qed

lemma merge_successors_result:
  assumes "info \<noteq> []" "positive_counts info" "\<forall>v \<in> successor_keys info. vars_count rt v"
    "starting_refs st = []"
  shows "\<exists>tracked. tracked_values [] info = Inr tracked
           \<and> set tracked = successor_keys info \<and> distinct tracked
           \<and> merge_successors rt bbg idx info st =
               Inr (st\<lparr>increfs := increfs st @ concat (map (edge_increfs rt bbg idx info) tracked),
                      decrefs := decrefs st @ concat (map (edge_decrefs rt bbg idx info) tracked),
                      starting_refs :=
                        map (\<lambda>v. (v, merged_refs rt info v))
                          (filter (\<lambda>v. merged_refs rt info v \<noteq> 0) tracked)\<rparr>)"
proof -
  from tracked_values_ok[OF assms(2), of "[]"] obtain tracked where
    t: "tracked_values [] info = Inr tracked" "set tracked = successor_keys info"
      "distinct tracked"
    by auto
  have "merge_values rt bbg idx info tracked st =
     Inr (st\<lparr>increfs := increfs st @ concat (map (edge_increfs rt bbg idx info) tracked),
            decrefs := decrefs st @ concat (map (edge_decrefs rt bbg idx info) tracked),
            starting_refs := starting_refs st @
              map (\<lambda>v. (v, merged_refs rt info v))
                (filter (\<lambda>v. merged_refs rt info v \<noteq> 0) tracked)\<rparr>)"
    using assms(3,2,4) t(2,3) by (intro merge_values_result) simp_all
  with t assms(1,4) show ?thesis
    by (simp add: merge_successors_def)
qed

lemma map_of_map_filter:
  "map_of (map (\<lambda>v. (v, g v)) (filter P tv)) v =
     (if v \<in> set tv \<and> P v then Some (g v) else None)"
  by (induction tv) auto

lemma merged_refs_Min:
  assumes "positive_counts info"
  shows "merged_refs rt info v =
     (let m = Min (insert 1000000000 ((\<lambda>s. this_refs (fst s) v) ` set info))
      in if reftype (vars_lookup rt v) = OWNED then max 1 m else m)"
  using min_refs_loop_Min[OF assms, of 1000000000 v]
  by (simp add: merged_refs_def demands_def)

text \<open>
  A visit to a block that is not its own successor merges the maps its processed
  successors hold when the visit begins.
\<close>

lemma block_successor_info_no_self:
  assumes "idx \<notin> set (successors bbg ! idx)"
  shows "block_successor_info bbg states idx =
     map (\<lambda>sidx. (ending_refs (states ! sidx), sidx)) (processed_successors bbg states idx)"
proof -
  have same: "states[idx := cleared_state] ! sidx = states ! sidx"
    if "sidx \<in> set (successors bbg ! idx)" for sidx
  proof -
    from that assms have "idx \<noteq> sidx" by blast
    then show ?thesis by (rule nth_list_update_neq)
  qed
  have "filter (\<lambda>sidx. been_run (states[idx := cleared_state] ! sidx)) (successors bbg ! idx)
        = processed_successors bbg states idx"
    unfolding processed_successors_def by (intro filter_cong) (simp_all add: same)
  moreover have "map (\<lambda>sidx. (ending_refs (states[idx := cleared_state] ! sidx), sidx))
          (processed_successors bbg states idx)
        = map (\<lambda>sidx. (ending_refs (states ! sidx), sidx)) (processed_successors bbg states idx)"
    by (intro map_cong) (auto simp: same processed_successors_def)
  ultimately show ?thesis
    by (simp add: block_successor_info_def Let_def)
qed

lemma define_step_starting:
  "define_step rt insts I rest st = Inr st1 \<Longrightarrow> starting_refs st1 = starting_refs st"
  by (auto simp: define_step_def Let_def then_do_Inr_iff split: if_splits)

lemma flush_loop_starting:
  "starting_refs (fst (flush_loop rt nxt ks (st, te))) = starting_refs st"
  by (induction ks arbitrary: st te) (simp_all add: Let_def)

lemma flush_step_starting:
  assumes "flush_step rt I rest st = Inr st2"
  shows "starting_refs st2 = starting_refs st"
proof (cases "inst_val I \<in> may_throw rt")
  case False
  with assms show ?thesis by (simp add: flush_step_def)
next
  case True
  obtain sa te where l: "flush_loop rt (getNextNode rest) (map fst (ending_refs st)) (st, [])
      = (sa, te)"
    by (cases "flush_loop rt (getNextNode rest) (map fst (ending_refs st)) (st, [])")
  from flush_loop_starting[of rt "getNextNode rest" "map fst (ending_refs st)" st "[]"] l
  have "starting_refs sa = starting_refs st" by simp
  with assms True l show ?thesis
    by (auto simp: flush_step_def then_do_Inr_iff simp del: flush_loop.simps)
qed

lemma last_use_loop_starting:
  "last_use_loop rt bb insts I rest nc nt st = Inr st3 \<Longrightarrow> starting_refs st3 = starting_refs st"
proof (induction nt arbitrary: st)
  case Nil
  then show ?case by simp
next
  case (Cons p ps)
  from Cons.prems show ?case
    by (auto simp: Let_def then_do_Inr_iff split: if_splits dest!: Cons.IH)
qed

lemma fixup_step_starting:
  "fixup_step rt I st = Inr st4 \<Longrightarrow> starting_refs st4 = starting_refs st"
  by (auto simp: fixup_step_def then_do_Inr_iff split: if_splits)

lemma scanInst_starting:
  assumes "scanInst rt bb insts I rest st = Inr st'"
  shows "starting_refs st' = starting_refs st"
proof -
  from assms obtain st1 where d: "define_step rt insts I rest st = Inr st1"
    and r: "(if isa_opcode PHINode (inst_val I) then Inr st1
         else then_do (scan_to_fixup rt bb insts I rest st1)
           (\<lambda>(st3, num_consumed_by_inst, num_times_as_op).
              then_do (fixup_step rt I st3) (\<lambda>st4.
                Inr (st4\<lparr>ending_refs :=
                  stolen_loop num_consumed_by_inst num_times_as_op (ending_refs st4)\<rparr>)))) = Inr st'"
    by (auto simp: scanInst_def then_do_Inr_iff)
  have s1: "starting_refs st1 = starting_refs st"
    using d by (rule define_step_starting)
  show ?thesis
  proof (cases "isa_opcode PHINode (inst_val I)")
    case True
    with r s1 show ?thesis by simp
  next
    case False
    with r obtain st3 nc nt st4 where
      a: "scan_to_fixup rt bb insts I rest st1 = Inr (st3, nc, nt)"
      and b: "fixup_step rt I st3 = Inr st4"
      and c: "st' = st4\<lparr>ending_refs := stolen_loop nc nt (ending_refs st4)\<rparr>"
      by (auto simp: then_do_Inr_iff)
    from a obtain st2 where f: "flush_step rt I rest st1 = Inr st2"
      and l: "last_use_loop rt bb insts I rest nc nt st2 = Inr st3"
      by (auto simp: scan_to_fixup_def then_do_Inr_iff)
    from flush_step_starting[OF f] last_use_loop_starting[OF l] fixup_step_starting[OF b] c s1
    show ?thesis by simp
  qed
qed

lemma scanInsts_starting:
  "scanInsts rt bb insts is st = Inr st' \<Longrightarrow> starting_refs st' = starting_refs st"
proof (induction "is" arbitrary: st')
  case Nil
  then show ?case by simp
next
  case (Cons I rest)
  from Cons.prems obtain sa where a: "scanInsts rt bb insts rest st = Inr sa"
    and b: "scanInst rt bb insts I rest sa = Inr st'"
    by (auto simp: then_do_Inr_iff)
  from Cons.IH[OF a] scanInst_starting[OF b] show ?case by simp
qed

lemma invoke_step_starting:
  "invoke_step rt bb ii st = Inr st' \<Longrightarrow> starting_refs st' = starting_refs st"
  by (auto simp: invoke_step_def Let_def then_do_Inr_iff split: if_splits)

lemma invokes_loop_starting:
  "invokes_loop rt bb iis st = Inr st' \<Longrightarrow> starting_refs st' = starting_refs st"
proof (induction iis arbitrary: st)
  case Nil
  then show ?case by simp
next
  case (Cons ii iis)
  from Cons.prems obtain sa where a: "invoke_step rt bb ii st = Inr sa"
    and b: "invokes_loop rt bb iis sa = Inr st'"
    by (auto simp: then_do_Inr_iff)
  from invoke_step_starting[OF a] Cons.IH[OF b] show ?case by simp
qed

lemma entry_step_starting:
  "entry_step rt f bb st = Inr st' \<Longrightarrow> starting_refs st' = starting_refs st"
  by (auto simp: entry_step_def then_do_Inr_iff split: if_splits)

lemma processBlock_starting:
  assumes "processBlock rt f bbg states idx = Inr (states', changed)"
  shows "\<exists>st1. merge_block rt bbg states idx = Inr st1
           \<and> starting_refs (states' ! idx) = starting_refs st1"
proof -
  let ?bb = "bbs bbg ! idx"
  from assms obtain st1 st3 st4 st5 where
    m: "merge_block rt bbg states idx = Inr st1"
    and s: "scanInsts rt ?bb (body f ?bb) (body f ?bb) (st1\<lparr>ending_refs := starting_refs st1\<rparr>)
          = Inr st3"
    and i: "invokes_loop rt ?bb (tracked_invokes rt f) st3 = Inr st4"
    and e: "entry_step rt f ?bb st4 = Inr st5"
    and r: "states' = states[idx := st5]"
    by (auto simp: processBlock_def Let_def then_do_Inr_iff)
  from m have "idx < length states"
    by (auto simp: merge_block_def visit_in_range_def split: if_splits)
  with r have "states' ! idx = st5" by simp
  with scanInsts_starting[OF s] invokes_loop_starting[OF i] entry_step_starting[OF e] m
  show ?thesis by simp
qed


lemma successor_keys_map:
  "successor_keys (map (\<lambda>sidx. (ending_refs (states ! sidx), sidx)) ss)
     = (\<Union>sidx \<in> set ss. fst ` set (ending_refs (states ! sidx)))"
  by (simp add: successor_keys_def)

text \<open>
  For a block that is not its own successor, with a successor that has been run, no
  successor map holding a count below 1 and every value of these maps annotated: the
  merge returns; the merged count of an \<^verbatim>\<open>OWNED\<close> value is at least 1; for every
  tracked value, in the order the values are first seen, and every processed successor
  in turn, an increment of the difference is planned on the edge to a successor that
  demands more than the merged count and a decrement of the difference on the edge to
  one that demands less, and nothing else is planned; and a successor demands less
  only for an \<^verbatim>\<open>OWNED\<close> value (the difference is then 1).
\<close>

lemma merge_block_edges_no_self:
  assumes "visit_in_range bbg states idx"
    and "idx \<notin> set (successors bbg ! idx)"
    and "processed_successors bbg states idx \<noteq> []"
    and "successor_counts_positive bbg states idx"
    and "successor_values_annotated rt bbg states idx"
    and "info = map (\<lambda>sidx. (ending_refs (states ! sidx), sidx))
                  (processed_successors bbg states idx)"
  shows "\<exists>tracked st1.
           tracked_values [] info = Inr tracked \<and> set tracked = successor_keys info
         \<and> merge_block rt bbg states idx = Inr st1
         \<and> increfs st1 = concat (map (edge_increfs rt bbg idx info) tracked)
         \<and> decrefs st1 = concat (map (edge_decrefs rt bbg idx info) tracked)
         \<and> (\<forall>v \<in> set tracked.
               (reftype (vars_lookup rt v) = OWNED \<longrightarrow> 1 \<le> merged_refs rt info v)
             \<and> (\<forall>s \<in> set info. this_refs (fst s) v < merged_refs rt info v
                   \<longrightarrow> reftype (vars_lookup rt v) = OWNED
                     \<and> merged_refs rt info v - this_refs (fst s) v = 1))"
proof -
  have info: "block_successor_info bbg states idx = info"
    unfolding assms(6) using assms(2) by (rule block_successor_info_no_self)
  have ne: "info \<noteq> []" using assms(3,6) by simp
  have pos: "positive_counts info"
    using assms(4) unfolding assms(6)
    by (auto simp: positive_counts_def successor_counts_positive_def)
  have tr: "\<forall>v \<in> successor_keys info. vars_count rt v"
    using assms(5) unfolding assms(6)
    by (auto simp: successor_keys_map successor_values_annotated_def)
  have st0: "starting_refs cleared_state = []" by (simp add: cleared_state_def)
  from merge_successors_result[OF ne pos tr st0, of bbg idx]
  obtain tracked where t: "tracked_values [] info = Inr tracked"
    "set tracked = successor_keys info"
    and m: "merge_successors rt bbg idx info cleared_state =
       Inr (cleared_state\<lparr>increfs := increfs cleared_state
                @ concat (map (edge_increfs rt bbg idx info) tracked),
              decrefs := decrefs cleared_state
                @ concat (map (edge_decrefs rt bbg idx info) tracked),
              starting_refs :=
                map (\<lambda>v. (v, merged_refs rt info v))
                  (filter (\<lambda>v. merged_refs rt info v \<noteq> 0) tracked)\<rparr>)"
    by blast
  let ?st1 = "cleared_state\<lparr>increfs := increfs cleared_state
                @ concat (map (edge_increfs rt bbg idx info) tracked),
              decrefs := decrefs cleared_state
                @ concat (map (edge_decrefs rt bbg idx info) tracked),
              starting_refs :=
                map (\<lambda>v. (v, merged_refs rt info v))
                  (filter (\<lambda>v. merged_refs rt info v \<noteq> 0) tracked)\<rparr>"
  have mb: "merge_block rt bbg states idx = Inr ?st1"
    using assms(1) m by (simp add: merge_block_def info)
  have i: "increfs ?st1 = concat (map (edge_increfs rt bbg idx info) tracked)"
    and d: "decrefs ?st1 = concat (map (edge_decrefs rt bbg idx info) tracked)"
    by (simp_all add: cleared_state_def)
  have raised: "reftype (vars_lookup rt v) = OWNED \<longrightarrow> 1 \<le> merged_refs rt info v" for v
    by (simp add: merged_refs_def Let_def)
  have dec: "reftype (vars_lookup rt v) = OWNED \<and> merged_refs rt info v - this_refs (fst s) v = 1"
    if "s \<in> set info" "this_refs (fst s) v < merged_refs rt info v" for s v
    using decrement_only_owned[OF pos that] by simp
  have owned: "\<forall>v \<in> set tracked.
               (reftype (vars_lookup rt v) = OWNED \<longrightarrow> 1 \<le> merged_refs rt info v)
             \<and> (\<forall>s \<in> set info. this_refs (fst s) v < merged_refs rt info v
                   \<longrightarrow> reftype (vars_lookup rt v) = OWNED
                     \<and> merged_refs rt info v - this_refs (fst s) v = 1)"
    using raised dec by blast
  show ?thesis
    by (intro exI[of _ tracked] exI[of _ ?st1] conjI t mb i d owned)
qed

text \<open>
  Claim C1, as amended. Let a block that is not its own successor have a successor
  that has been run, no map of such a successor hold a count below 1, and every value
  of these maps be annotated. Then the merge returns, and for every value in the map
  of some such successor the entry recorded in \<^verbatim>\<open>starting_refs\<close> is the minimum, over
  these successors, of the count the successor holds for the value (zero where the
  value is missing), capped at 1000000000 and raised to 1 for an \<^verbatim>\<open>OWNED\<close> value;
  no entry is recorded when that is zero. The rest of the visit leaves
  \<^verbatim>\<open>starting_refs\<close> as the merge set it.
\<close>

theorem merge_starting_refs_minimum:
  assumes "visit_in_range bbg states idx"
    and "idx \<notin> set (successors bbg ! idx)"
    and "processed_successors bbg states idx \<noteq> []"
    and "successor_counts_positive bbg states idx"
    and "successor_values_annotated rt bbg states idx"
  shows "\<exists>st1. merge_block rt bbg states idx = Inr st1
         \<and> (\<forall>sidx \<in> set (processed_successors bbg states idx).
              \<forall>p \<in> set (ending_refs (states ! sidx)).
                OrderedMap_get (starting_refs st1) (fst p) =
                  (let m = Min (insert 1000000000
                             ((\<lambda>s. this_refs (ending_refs (states ! s)) (fst p))
                                ` set (processed_successors bbg states idx)));
                       min_refs = (if reftype (vars_lookup rt (fst p)) = OWNED then max 1 m
                                   else m)
                   in if min_refs = 0 then None else Some min_refs))
         \<and> (\<forall>states' changed.
               processBlock rt f bbg states idx = Inr (states', changed)
               \<longrightarrow> starting_refs (states' ! idx) = starting_refs st1)"
proof -
  let ?ps = "processed_successors bbg states idx"
  let ?info = "map (\<lambda>sidx. (ending_refs (states ! sidx), sidx)) ?ps"
  have info: "block_successor_info bbg states idx = ?info"
    using assms(2) by (rule block_successor_info_no_self)
  have ne: "?info \<noteq> []" using assms(3) by simp
  have pos: "positive_counts ?info"
    using assms(4) by (auto simp: positive_counts_def successor_counts_positive_def)
  have tr: "\<forall>v \<in> successor_keys ?info. vars_count rt v"
    using assms(5) by (auto simp: successor_keys_map successor_values_annotated_def)
  have st0: "starting_refs cleared_state = []" by (simp add: cleared_state_def)
  from merge_successors_result[OF ne pos tr st0, of bbg idx]
  obtain tracked where t: "set tracked = successor_keys ?info"
    and m: "merge_successors rt bbg idx ?info cleared_state =
       Inr (cleared_state\<lparr>increfs := increfs cleared_state
                @ concat (map (edge_increfs rt bbg idx ?info) tracked),
              decrefs := decrefs cleared_state
                @ concat (map (edge_decrefs rt bbg idx ?info) tracked),
              starting_refs :=
                map (\<lambda>v. (v, merged_refs rt ?info v))
                  (filter (\<lambda>v. merged_refs rt ?info v \<noteq> 0) tracked)\<rparr>)"
    by blast
  let ?st1 = "cleared_state\<lparr>increfs := increfs cleared_state
                @ concat (map (edge_increfs rt bbg idx ?info) tracked),
              decrefs := decrefs cleared_state
                @ concat (map (edge_decrefs rt bbg idx ?info) tracked),
              starting_refs :=
                map (\<lambda>v. (v, merged_refs rt ?info v))
                  (filter (\<lambda>v. merged_refs rt ?info v \<noteq> 0) tracked)\<rparr>"
  have mb: "merge_block rt bbg states idx = Inr ?st1"
    using assms(1) m by (simp add: merge_block_def info)
  have img: "(\<lambda>s. this_refs (fst s) v) ` set ?info
               = (\<lambda>s. this_refs (ending_refs (states ! s)) v) ` set ?ps" for v
    by (simp add: image_image)
  have mr: "merged_refs rt ?info v =
                  (let m = Min (insert 1000000000
                             ((\<lambda>s. this_refs (ending_refs (states ! s)) v) ` set ?ps))
                   in if reftype (vars_lookup rt v) = OWNED then max 1 m else m)" for v
    using merged_refs_Min[OF pos, of rt v] unfolding img .
  have get: "OrderedMap_get (starting_refs ?st1) v =
                  (let m = Min (insert 1000000000
                             ((\<lambda>s. this_refs (ending_refs (states ! s)) v) ` set ?ps));
                       min_refs = (if reftype (vars_lookup rt v) = OWNED then max 1 m else m)
                   in if min_refs = 0 then None else Some min_refs)"
    if "v \<in> successor_keys ?info" for v
  proof -
    from that t have "v \<in> set tracked" by simp
    then have "OrderedMap_get (starting_refs ?st1) v =
        (if merged_refs rt ?info v \<noteq> 0 then Some (merged_refs rt ?info v) else None)"
      by (simp add: OrderedMap_get_def map_of_map_filter)
    also have "\<dots> = (let m = Min (insert 1000000000
                             ((\<lambda>s. this_refs (ending_refs (states ! s)) v) ` set ?ps));
                       min_refs = (if reftype (vars_lookup rt v) = OWNED then max 1 m else m)
                   in if min_refs = 0 then None else Some min_refs)"
      unfolding mr by (simp add: Let_def)
    finally show ?thesis .
  qed
  have per: "\<forall>sidx \<in> set ?ps. \<forall>p \<in> set (ending_refs (states ! sidx)).
                OrderedMap_get (starting_refs ?st1) (fst p) =
                  (let m = Min (insert 1000000000
                             ((\<lambda>s. this_refs (ending_refs (states ! s)) (fst p)) ` set ?ps));
                       min_refs = (if reftype (vars_lookup rt (fst p)) = OWNED then max 1 m
                                   else m)
                   in if min_refs = 0 then None else Some min_refs)"
  proof (intro ballI)
    fix sidx p assume "sidx \<in> set ?ps" "p \<in> set (ending_refs (states ! sidx))"
    then have "fst p \<in> successor_keys ?info"
      by (auto simp: successor_keys_map)
    then show "OrderedMap_get (starting_refs ?st1) (fst p) =
                  (let m = Min (insert 1000000000
                             ((\<lambda>s. this_refs (ending_refs (states ! s)) (fst p)) ` set ?ps));
                       min_refs = (if reftype (vars_lookup rt (fst p)) = OWNED then max 1 m
                                   else m)
                   in if min_refs = 0 then None else Some min_refs)"
      by (rule get)
  qed
  have keep: "\<forall>states' changed.
               processBlock rt f bbg states idx = Inr (states', changed)
               \<longrightarrow> starting_refs (states' ! idx) = starting_refs ?st1"
  proof (intro allI impI)
    fix states' changed
    assume "processBlock rt f bbg states idx = Inr (states', changed)"
    from processBlock_starting[OF this] mb
    show "starting_refs (states' ! idx) = starting_refs ?st1" by auto
  qed
  show ?thesis
    by (intro exI[of _ ?st1] conjI mb per keep)
qed

lemma example_merge:
  "merge_successors example_tracker example_graph 0 example_info cleared_state
     = Inr example_merged"
  by (simp add: merge_successors_def merge_value_def merged_refs_def this_refs_def
      OrderedMap_count_def OrderedMap_at_def vars_count_def vars_lookup_def
      example_tracker_def example_graph_def example_info_def cleared_state_def
      example_merged_def)

lemma example_block_hyps:
  "visit_in_range example_graph example_states 0"
  "0 \<notin> set (successors example_graph ! 0)"
  "processed_successors example_graph example_states 0 \<noteq> []"
  "successor_counts_positive example_graph example_states 0"
  "successor_values_annotated example_tracker example_graph example_states 0"
  by (simp_all add: visit_in_range_def example_graph_def example_states_def
      processed_successors_def successor_counts_positive_def successor_values_annotated_def
      cleared_state_def unrun_state_def vars_count_def example_tracker_def)

lemma example_block_info:
  "block_successor_info example_graph example_states 0 = example_info"
  by (simp add: block_successor_info_def example_graph_def example_states_def
      cleared_state_def unrun_state_def example_info_def)

lemma example_merge_block:
  "merge_block example_tracker example_graph example_states 0 = Inr example_merged"
  using example_block_hyps(1) by (simp add: merge_block_def example_block_info example_merge)

theorem merge_starting_refs_minimum_witness:
  "\<exists>st1. merge_block example_tracker example_graph example_states 0 = Inr st1
     \<and> OrderedMap_get (starting_refs st1) (Val 1 Argument) = Some 1
     \<and> OrderedMap_get (starting_refs st1) (Val 20 (Instruction CallInst)) = Some 1"
proof -
  from merge_starting_refs_minimum[OF example_block_hyps]
  obtain st1 where t:
    "merge_block example_tracker example_graph example_states 0 = Inr st1"
    "\<forall>sidx \<in> set (processed_successors example_graph example_states 0).
       \<forall>p \<in> set (ending_refs (example_states ! sidx)).
         OrderedMap_get (starting_refs st1) (fst p) =
           (let m = Min (insert 1000000000
                      ((\<lambda>s. this_refs (ending_refs (example_states ! s)) (fst p))
                         ` set (processed_successors example_graph example_states 0)));
                min_refs = (if reftype (vars_lookup example_tracker (fst p)) = OWNED
                            then max 1 m else m)
            in if min_refs = 0 then None else Some min_refs)"
    by blast
  have ps: "processed_successors example_graph example_states 0 = [1, 2]"
    by (simp add: processed_successors_def example_graph_def example_states_def
        cleared_state_def)
  have e1: "ending_refs (example_states ! 1)
              = [(Val 20 (Instruction CallInst), 1), (Val 1 Argument, 2)]"
    and e2: "ending_refs (example_states ! 2) = [(Val 1 Argument, 1)]"
    by (simp_all add: example_states_def)
  have m1: "1 \<in> set (processed_successors example_graph example_states 0)"
    by (simp add: ps)
  have p1: "(Val 1 Argument, 2) \<in> set (ending_refs (example_states ! 1))"
    and p2: "(Val 20 (Instruction CallInst), 1) \<in> set (ending_refs (example_states ! 1))"
    unfolding e1 by simp_all
  from t(2) m1 p1
  have "OrderedMap_get (starting_refs st1) (fst (Val 1 Argument, 2::int)) =
           (let m = Min (insert 1000000000
                      ((\<lambda>s. this_refs (ending_refs (example_states ! s)) (fst (Val 1 Argument, 2::int)))
                         ` set (processed_successors example_graph example_states 0)));
                min_refs = (if reftype (vars_lookup example_tracker (fst (Val 1 Argument, 2::int))) = OWNED
                            then max 1 m else m)
            in if min_refs = 0 then None else Some min_refs)"
    by blast
  then have a: "OrderedMap_get (starting_refs st1) (Val 1 Argument) = Some 1"
    unfolding ps
    by (simp add: example_states_def cleared_state_def this_refs_def OrderedMap_count_def OrderedMap_at_def vars_lookup_def
        example_tracker_def Let_def)
  from t(2) m1 p2
  have "OrderedMap_get (starting_refs st1) (fst (Val 20 (Instruction CallInst), 1::int)) =
           (let m = Min (insert 1000000000
                      ((\<lambda>s. this_refs (ending_refs (example_states ! s))
                               (fst (Val 20 (Instruction CallInst), 1::int)))
                         ` set (processed_successors example_graph example_states 0)));
                min_refs = (if reftype (vars_lookup example_tracker
                                 (fst (Val 20 (Instruction CallInst), 1::int))) = OWNED
                            then max 1 m else m)
            in if min_refs = 0 then None else Some min_refs)"
    by blast
  then have b: "OrderedMap_get (starting_refs st1) (Val 20 (Instruction CallInst)) = Some 1"
    unfolding ps
    by (simp add: example_states_def cleared_state_def this_refs_def OrderedMap_count_def OrderedMap_at_def vars_lookup_def
        example_tracker_def Let_def)
  show ?thesis
    by (intro exI[of _ st1] conjI t(1) a b)
qed

text \<open>
  The claim C1 as stated, with the maximum, fails on the example: the two processed
  successors of the entry block hold 2 and 1 references to the argument, and the
  entry recorded is 1.
\<close>

theorem merge_starting_refs_maximum_counterexample:
  "merge_block example_tracker example_graph example_states 0 = Inr example_merged
   \<and> processed_successors example_graph example_states 0 = [1, 2]
   \<and> this_refs (ending_refs (example_states ! 1)) (Val 1 Argument) = 2
   \<and> this_refs (ending_refs (example_states ! 2)) (Val 1 Argument) = 1
   \<and> OrderedMap_get (starting_refs example_merged) (Val 1 Argument) = Some 1
   \<and> Max (demands (block_successor_info example_graph example_states 0) (Val 1 Argument)) = 2"
proof -
  have ps: "processed_successors example_graph example_states 0 = [1, 2]"
    by (simp add: processed_successors_def example_graph_def example_states_def
        cleared_state_def)
  have a: "this_refs (ending_refs (example_states ! 1)) (Val 1 Argument) = 2"
    and b: "this_refs (ending_refs (example_states ! 2)) (Val 1 Argument) = 1"
    by (simp_all add: example_states_def this_refs_def OrderedMap_count_def OrderedMap_at_def)
  have c: "OrderedMap_get (starting_refs example_merged) (Val 1 Argument) = Some 1"
    by (simp add: example_merged_def OrderedMap_get_def)
  have d: "Max (demands (block_successor_info example_graph example_states 0) (Val 1 Argument)) = 2"
    by (simp add: example_block_info demands_def example_info_def this_refs_def
        OrderedMap_count_def OrderedMap_at_def)
  show ?thesis
    by (intro conjI example_merge_block ps a b c d)
qed

text \<open>The three visits that bring the solver to its fixed point on the loop.\<close>

lemma loop_visit_exit:
  "processBlock loop_tracker loop_function loop_graph [unrun_state, unrun_state, unrun_state] 2
     = Inr ([unrun_state, unrun_state, loop_exit_state], True)"
  by (simp add: processBlock_def merge_block_def visit_in_range_def block_successor_info_def
      merge_successors_def loop_graph_def loop_function_def loop_tracker_def unrun_state_def
      cleared_state_def loop_exit_state_def scanInst_def define_step_def scan_to_fixup_def
      flush_step_def count_operands_def find_list_def fixup_step_def vars_count_def
      vars_lookup_def isa_opcode_def tracked_invokes_def inst_range_def entry_step_def
      front_def OrderedMap_at_def SmallOrderedMap_index_def Let_def)


lemma loop_visit_body_first:
  "processBlock loop_tracker loop_function loop_graph
     [unrun_state, unrun_state, loop_exit_state] 1
     = Inr ([unrun_state, loop_body_state, loop_exit_state], True)"
  by (simp add: processBlock_def merge_block_def visit_in_range_def block_successor_info_def
      merge_successors_def merge_value_def merged_refs_def this_refs_def OrderedMap_count_def
      loop_graph_def loop_function_def loop_tracker_def unrun_state_def
      cleared_state_def loop_exit_state_def loop_body_state_def scanInst_def define_step_def
      scan_to_fixup_def flush_step_def count_operands_def find_list_def fixup_step_def
      vars_count_def vars_lookup_def isa_opcode_def tracked_invokes_def inst_range_def
      entry_step_def front_def OrderedMap_at_def SmallOrderedMap_index_def Let_def)

lemma loop_visit_body_second:
  "processBlock loop_tracker loop_function loop_graph
     [unrun_state, loop_body_state, loop_exit_state] 1
     = Inr ([unrun_state, loop_body_state, loop_exit_state], False)"
  by (simp add: processBlock_def merge_block_def visit_in_range_def block_successor_info_def
      merge_successors_def merge_value_def merged_refs_def this_refs_def OrderedMap_count_def
      loop_graph_def loop_function_def loop_tracker_def unrun_state_def
      cleared_state_def loop_exit_state_def loop_body_state_def scanInst_def define_step_def
      scan_to_fixup_def flush_step_def count_operands_def find_list_def fixup_step_def
      vars_count_def vars_lookup_def isa_opcode_def tracked_invokes_def inst_range_def
      entry_step_def front_def OrderedMap_at_def SmallOrderedMap_index_def Let_def
      endingRefsDifferent_def OrderedMap_size_def OrderedMap_get_def)

text \<open>
  Claim C2 fails for a block that is its own successor. Lines 889-898 mark the block
  as run and clear its maps before lines 902-905 collect the successors that have been
  run, so the merge reads the block's own map as empty. On the loop, once the exit
  block and the loop block have been visited, both hold one reference to the argument
  at their beginning; the loop block is a processed successor of itself; the merged
  count is 0, an increment of 1 is planned on the edge to the exit block and none on
  the edge from the loop block to itself, and a further visit changes nothing.
\<close>

theorem self_successor_merges_cleared_map:
  "processBlock loop_tracker loop_function loop_graph [unrun_state, unrun_state, unrun_state] 2
     = Inr ([unrun_state, unrun_state, loop_exit_state], True)
   \<and> processBlock loop_tracker loop_function loop_graph
       [unrun_state, unrun_state, loop_exit_state] 1
     = Inr ([unrun_state, loop_body_state, loop_exit_state], True)
   \<and> processBlock loop_tracker loop_function loop_graph
       [unrun_state, loop_body_state, loop_exit_state] 1
     = Inr ([unrun_state, loop_body_state, loop_exit_state], False)
   \<and> successors loop_graph ! 1 = [1, 2]
   \<and> processed_successors loop_graph [unrun_state, loop_body_state, loop_exit_state] 1 = [1, 2]
   \<and> ending_refs loop_body_state = [(Val 1 Argument, 1)]
   \<and> ending_refs loop_exit_state = [(Val 1 Argument, 1)]
   \<and> block_successor_info loop_graph [unrun_state, loop_body_state, loop_exit_state] 1
     = [([], 1), ([(Val 1 Argument, 1)], 2)]
   \<and> starting_refs loop_body_state = []
   \<and> increfs loop_body_state = [RefOp (Val 1 Argument) False 1 None (Some 32) (Some 31)]
   \<and> decrefs loop_body_state = []"
proof -
  have a: "successors loop_graph ! 1 = [1, 2]"
    by (simp add: loop_graph_def)
  have b: "processed_successors loop_graph [unrun_state, loop_body_state, loop_exit_state] 1
             = [1, 2]"
    by (simp add: processed_successors_def loop_graph_def loop_body_state_def
        loop_exit_state_def cleared_state_def)
  have c: "ending_refs loop_body_state = [(Val 1 Argument, 1)]"
    "ending_refs loop_exit_state = [(Val 1 Argument, 1)]"
    "starting_refs loop_body_state = []"
    "increfs loop_body_state = [RefOp (Val 1 Argument) False 1 None (Some 32) (Some 31)]"
    "decrefs loop_body_state = []"
    by (simp_all add: loop_body_state_def loop_exit_state_def cleared_state_def)
  have d: "block_successor_info loop_graph [unrun_state, loop_body_state, loop_exit_state] 1
     = [([], 1), ([(Val 1 Argument, 1)], 2)]"
    by (simp add: block_successor_info_def loop_graph_def loop_body_state_def
        loop_exit_state_def cleared_state_def)
  show ?thesis
    by (intro conjI loop_visit_exit loop_visit_body_first loop_visit_body_second a b c d)
qed

subsection \<open>Before a call that may throw\<close>

lemma OrderedMap_store_present:
  assumes "distinct (map fst m)" "k \<in> fst ` set m"
  shows "OrderedMap_store m k c = map (\<lambda>p. if fst p = k then (k, c) else p) m"
  using assms
proof (induction m)
  case Nil
  then show ?case by simp
next
  case (Cons p ps)
  show ?case
  proof (cases "fst p = k")
    case True
    from Cons.prems(1) have "fst p \<notin> fst ` set ps" by simp
    with True have "\<forall>q \<in> set ps. fst q \<noteq> k" by blast
    then have "map (\<lambda>p. if fst p = k then (k, c) else p) ps = ps"
      by (induction ps) auto
    with True show ?thesis by simp
  next
    case False
    with Cons show ?thesis by auto
  qed
qed

lemma OrderedMap_at_present:
  "distinct (map fst m) \<Longrightarrow> (k, c) \<in> set m \<Longrightarrow> OrderedMap_at m k = c"
  by (simp add: OrderedMap_at_def)

lemma flushed_keys [simp]: "map fst (flushed rt ks er) = map fst er"
  by (induction er) (auto simp: flushed_def)

lemma flushed_insert:
  assumes "distinct (map fst er)" "k \<in> fst ` set er"
  shows "OrderedMap_store (flushed rt ks er) k (needed_refs rt k) = flushed rt (insert k ks) er"
proof -
  have d: "distinct (map fst (flushed rt ks er))" using assms(1) by simp
  have "set (map fst (flushed rt ks er)) = set (map fst er)" by simp
  then have "fst ` set (flushed rt ks er) = fst ` set er" by (simp only: set_map)
  with assms(2) have k: "k \<in> fst ` set (flushed rt ks er)" by simp
  show ?thesis
    unfolding OrderedMap_store_present[OF d k]
    by (auto simp: flushed_def)
qed

lemma flushed_at:
  assumes "distinct (map fst er)" "k \<notin> ks"
  shows "OrderedMap_at (flushed rt ks er) k = OrderedMap_at er k"
proof -
  have "map_of (flushed rt ks er) k = map_of er k"
    using assms(2) by (induction er) (auto simp: flushed_def)
  then show ?thesis by (simp add: OrderedMap_at_def)
qed

lemma flush_loop_result:
  assumes "distinct (map fst er)" "distinct ks" "set ks \<subseteq> fst ` set er" "set ks \<inter> done = {}"
    "ending_refs st = flushed rt done er"
  shows "flush_loop rt nxt ks (st, te) =
     (st\<lparr>increfs := increfs st @
             map (\<lambda>k. RefOp k (nullable (vars_lookup rt k))
                         (OrderedMap_at er k - needed_refs rt k) nxt None None)
               (filter (\<lambda>k. needed_refs rt k < OrderedMap_at er k) ks),
           ending_refs := flushed rt (done \<union> set ks) er\<rparr>,
      te @ filter (\<lambda>k. needed_refs rt k = 0) ks)"
  using assms(2-5)
proof (induction ks arbitrary: st te "done")
  case Nil
  then show ?case by simp
next
  case (Cons k ks)
  have k: "k \<in> fst ` set er" "k \<notin> done" "k \<notin> set ks"
    using Cons.prems by auto
  have at: "OrderedMap_at (ending_refs st) k = OrderedMap_at er k"
    unfolding Cons.prems(4) using assms(1) k(2) by (rule flushed_at)
  define st1 where "st1 = (if needed_refs rt k < OrderedMap_at er k then
                   st\<lparr>increfs := increfs st @
                     [RefOp k (nullable (vars_lookup rt k)) (OrderedMap_at er k - needed_refs rt k) nxt
                        None None]\<rparr>
                 else st)"
  define st2 where "st2 = st1\<lparr>ending_refs := flushed rt (insert k done) er\<rparr>"
  have er1: "ending_refs st1 = flushed rt done er"
    using Cons.prems(4) by (simp add: st1_def)
  have store: "OrderedMap_store (ending_refs st1) k (needed_refs rt k) = flushed rt (insert k done) er"
    unfolding er1 using assms(1) k(1) by (rule flushed_insert)
  have step: "flush_loop rt nxt (k # ks) (st, te) =
      flush_loop rt nxt ks (st2, if needed_refs rt k = 0 then te @ [k] else te)"
    using store by (simp add: Let_def at st1_def st2_def)
  have IH: "flush_loop rt nxt ks (st2, te') =
     (st2\<lparr>increfs := increfs st2 @
             map (\<lambda>k. RefOp k (nullable (vars_lookup rt k))
                         (OrderedMap_at er k - needed_refs rt k) nxt None None)
               (filter (\<lambda>k. needed_refs rt k < OrderedMap_at er k) ks),
           ending_refs := flushed rt (insert k done \<union> set ks) er\<rparr>,
      te' @ filter (\<lambda>k. needed_refs rt k = 0) ks)" for te'
    using Cons.prems k by (intro Cons.IH) (auto simp: st2_def)
  show ?case
    unfolding step IH by (auto simp: st2_def st1_def)
qed

lemma erase_all_result:
  assumes "distinct vs" "set vs \<subseteq> fst ` set m"
  shows "erase_all m vs = Inr (filter (\<lambda>p. fst p \<notin> set vs) m)"
  using assms
proof (induction vs arbitrary: m)
  case Nil
  then show ?case by simp
next
  case (Cons v vs)
  have v: "v \<in> fst ` set m" "v \<notin> set vs" using Cons.prems by auto
  then have one: "OrderedMap_erase m v = Inr (filter (\<lambda>p. fst p \<noteq> v) m)"
    by (simp add: OrderedMap_erase_def OrderedMap_count_def map_of_eq_None_iff)
  have "set vs \<subseteq> fst ` set (filter (\<lambda>p. fst p \<noteq> v) m)"
  proof
    fix x assume x: "x \<in> set vs"
    with Cons.prems(2) obtain p where "p \<in> set m" "fst p = x" by auto
    moreover from x v(2) have "x \<noteq> v" by auto
    ultimately show "x \<in> fst ` set (filter (\<lambda>p. fst p \<noteq> v) m)" by force
  qed
  moreover have "distinct vs" using Cons.prems(1) by simp
  ultimately have "erase_all (filter (\<lambda>p. fst p \<noteq> v) m) vs
      = Inr (filter (\<lambda>p. fst p \<notin> set vs) (filter (\<lambda>p. fst p \<noteq> v) m))"
    by (intro Cons.IH)
  with one show ?case by (auto intro: filter_cong)
qed

lemma keys_to_entries:
  assumes "distinct (map fst er)"
  shows "map (\<lambda>k. f k (OrderedMap_at er k)) (filter (\<lambda>k. P k (OrderedMap_at er k)) (map fst er))
       = map (\<lambda>p. f (fst p) (snd p)) (filter (\<lambda>p. P (fst p) (snd p)) er)"
proof -
  have at: "OrderedMap_at er (fst p) = snd p" if "p \<in> set er" for p
    using assms that by (cases p) (simp add: OrderedMap_at_present)
  have "filter (\<lambda>k. P k (OrderedMap_at er k)) (map fst er)
          = map fst (filter (\<lambda>p. P (fst p) (OrderedMap_at er (fst p))) er)"
    by (simp add: filter_map comp_def)
  also have "filter (\<lambda>p. P (fst p) (OrderedMap_at er (fst p))) er
          = filter (\<lambda>p. P (fst p) (snd p)) er"
    by (intro filter_cong) (simp_all add: at)
  finally show ?thesis
    by (auto simp: at)
qed

lemma flushed_all:
  "flushed rt (fst ` set er) er = map (\<lambda>p. (fst p, needed_refs rt (fst p))) er"
  by (auto simp: flushed_def)

lemma erase_unneeded:
  "filter (\<lambda>p. fst p \<notin> set (filter (\<lambda>k. needed_refs rt k = 0) (map fst er)))
     (map (\<lambda>p. (fst p, needed_refs rt (fst p))) er)
   = map (\<lambda>p. (fst p, 1)) (filter (\<lambda>p. reftype (vars_lookup rt (fst p)) = OWNED) er)"
proof -
  have "filter (\<lambda>p. fst p \<notin> set (filter (\<lambda>k. needed_refs rt k = 0) (map fst er)))
          (map (\<lambda>p. (fst p, needed_refs rt (fst p))) er)
      = map (\<lambda>p. (fst p, needed_refs rt (fst p)))
          (filter (\<lambda>p. fst p \<notin> set (filter (\<lambda>k. needed_refs rt k = 0) (map fst er))) er)"
    by (simp add: filter_map comp_def)
  also have "filter (\<lambda>p. fst p \<notin> set (filter (\<lambda>k. needed_refs rt k = 0) (map fst er))) er
      = filter (\<lambda>p. reftype (vars_lookup rt (fst p)) = OWNED) er"
    by (intro filter_cong) (auto simp: needed_refs_def)
  also have "map (\<lambda>p. (fst p, needed_refs rt (fst p)))
               (filter (\<lambda>p. reftype (vars_lookup rt (fst p)) = OWNED) er)
      = map (\<lambda>p. (fst p, 1)) (filter (\<lambda>p. reftype (vars_lookup rt (fst p)) = OWNED) er)"
    by (intro map_cong) (auto simp: needed_refs_def)
  finally show ?thesis .
qed

lemma map_of_owned_ones:
  "map_of (map (\<lambda>p. (fst p, 1::int))
             (filter (\<lambda>p. reftype (vars_lookup rt (fst p)) = OWNED) er)) v
     = (if v \<in> fst ` set er \<and> reftype (vars_lookup rt v) = OWNED then Some 1 else None)"
  by (induction er) auto

lemma flush_step_result:
  assumes "inst_val I \<in> may_throw rt" "OrderedMap_inv (ending_refs st)"
  shows "flush_step rt I rest st =
     Inr (st\<lparr>increfs := increfs st @ surplus_increfs rt (getNextNode rest) (ending_refs st),
            ending_refs := map (\<lambda>p. (fst p, 1))
              (filter (\<lambda>p. reftype (vars_lookup rt (fst p)) = OWNED) (ending_refs st))\<rparr>)"
proof -
  let ?er = "ending_refs st"
  let ?nxt = "getNextNode rest"
  have d: "distinct (map fst ?er)"
    using assms(2) by (simp add: OrderedMap_inv_def)
  have e0: "ending_refs st = flushed rt {} ?er"
    by (simp add: flushed_def)
  have loop: "flush_loop rt ?nxt (map fst ?er) (st, []) =
     (st\<lparr>increfs := increfs st @
             map (\<lambda>k. RefOp k (nullable (vars_lookup rt k))
                         (OrderedMap_at ?er k - needed_refs rt k) ?nxt None None)
               (filter (\<lambda>k. needed_refs rt k < OrderedMap_at ?er k) (map fst ?er)),
           ending_refs := flushed rt ({} \<union> set (map fst ?er)) ?er\<rparr>,
      [] @ filter (\<lambda>k. needed_refs rt k = 0) (map fst ?er))"
    using d e0 by (intro flush_loop_result) simp_all
  have incs: "map (\<lambda>k. RefOp k (nullable (vars_lookup rt k))
                         (OrderedMap_at ?er k - needed_refs rt k) ?nxt None None)
               (filter (\<lambda>k. needed_refs rt k < OrderedMap_at ?er k) (map fst ?er))
             = surplus_increfs rt ?nxt ?er"
    unfolding surplus_increfs_def
    using keys_to_entries[OF d,
        of "\<lambda>k c. RefOp k (nullable (vars_lookup rt k)) (c - needed_refs rt k) ?nxt None None"
           "\<lambda>k c. needed_refs rt k < c"]
    by simp
  let ?er2 = "map (\<lambda>p. (fst p, needed_refs rt (fst p))) ?er"
  let ?te = "filter (\<lambda>k. needed_refs rt k = 0) (map fst ?er)"
  have "erase_all ?er2 ?te = Inr (filter (\<lambda>p. fst p \<notin> set ?te) ?er2)"
    using d by (intro erase_all_result) (force simp: distinct_map_filter)+
  also have "filter (\<lambda>p. fst p \<notin> set ?te) ?er2
      = map (\<lambda>p. (fst p, 1)) (filter (\<lambda>p. reftype (vars_lookup rt (fst p)) = OWNED) ?er)"
    by (rule erase_unneeded)
  finally have erase: "erase_all ?er2 ?te
      = Inr (map (\<lambda>p. (fst p, 1)) (filter (\<lambda>p. reftype (vars_lookup rt (fst p)) = OWNED) ?er))" .
  show ?thesis
    using assms(1)
    by (simp add: flush_step_def loop incs flushed_all erase del: flush_loop.simps)
qed

text \<open>
  Claim C4. At an instruction that may throw, with \<^verbatim>\<open>ending_refs\<close> keeping the
  invariant of \<^verbatim>\<open>OrderedMap\<close>, the step returns; the increments it plans are, in the
  order of the map, one per entry whose count is above what the value needs (1 for
  \<^verbatim>\<open>OWNED\<close>, 0 otherwise), of exactly the surplus, inserted before the instruction that
  follows the current one; and every value of the map is left with the count it needs,
  or with no entry when it needs none.
\<close>

theorem flush_before_may_throw:
  assumes "inst_val I \<in> may_throw rt" "OrderedMap_inv (ending_refs st)"
  shows "\<exists>st'. flush_step rt I rest st = Inr st'
         \<and> increfs st' = increfs st @ surplus_increfs rt (getNextNode rest) (ending_refs st)
         \<and> (\<forall>p \<in> set (ending_refs st).
               (needed_refs rt (fst p) < snd p \<longrightarrow>
                  RefOp (fst p) (nullable (vars_lookup rt (fst p)))
                    (snd p - needed_refs rt (fst p)) (getNextNode rest) None None
                    \<in> set (increfs st'))
             \<and> OrderedMap_get (ending_refs st') (fst p) =
                 (if needed_refs rt (fst p) = 0 then None else Some (needed_refs rt (fst p))))
         \<and> (rest \<noteq> [] \<longrightarrow> getNextNode rest = Some (inst_val (hd rest)))"
proof -
  let ?st' = "st\<lparr>increfs := increfs st @ surplus_increfs rt (getNextNode rest) (ending_refs st),
            ending_refs := map (\<lambda>p. (fst p, 1))
              (filter (\<lambda>p. reftype (vars_lookup rt (fst p)) = OWNED) (ending_refs st))\<rparr>"
  have r: "flush_step rt I rest st = Inr ?st'"
    using assms by (rule flush_step_result)
  have i: "increfs ?st' = increfs st @ surplus_increfs rt (getNextNode rest) (ending_refs st)"
    by simp
  have get: "OrderedMap_get (ending_refs ?st') v =
               (if needed_refs rt v = 0 then None else Some (needed_refs rt v))"
    if "v \<in> fst ` set (ending_refs st)" for v
    using that by (simp add: OrderedMap_get_def needed_refs_def map_of_owned_ones)
  have per: "\<forall>p \<in> set (ending_refs st).
               (needed_refs rt (fst p) < snd p \<longrightarrow>
                  RefOp (fst p) (nullable (vars_lookup rt (fst p)))
                    (snd p - needed_refs rt (fst p)) (getNextNode rest) None None
                    \<in> set (increfs ?st'))
             \<and> OrderedMap_get (ending_refs ?st') (fst p) =
                 (if needed_refs rt (fst p) = 0 then None else Some (needed_refs rt (fst p)))"
  proof
    fix p assume p: "p \<in> set (ending_refs st)"
    then have "fst p \<in> fst ` set (ending_refs st)" by simp
    from get[OF this] p show "(needed_refs rt (fst p) < snd p \<longrightarrow>
                  RefOp (fst p) (nullable (vars_lookup rt (fst p)))
                    (snd p - needed_refs rt (fst p)) (getNextNode rest) None None
                    \<in> set (increfs ?st'))
             \<and> OrderedMap_get (ending_refs ?st') (fst p) =
                 (if needed_refs rt (fst p) = 0 then None else Some (needed_refs rt (fst p)))"
      by (auto simp: surplus_increfs_def)
  qed
  have n: "rest \<noteq> [] \<longrightarrow> getNextNode rest = Some (inst_val (hd rest))"
    by (cases rest) (simp_all add: getNextNode_def)
  show ?thesis
    by (intro exI[of _ ?st'] conjI r i per n)
qed

text \<open>
  The example: a surplus of two on each value; the owned value stays with one
  reference, the argument leaves the map.
\<close>

theorem flush_before_may_throw_witness:
  "\<exists>st'. flush_step example_tracker example_call example_rest example_scan_state = Inr st'
     \<and> increfs st' =
         [RefOp (Val 20 (Instruction CallInst)) False 2 (Some (Val 22 (Instruction OtherTerminator)))
            None None,
          RefOp (Val 1 Argument) False 2 (Some (Val 22 (Instruction OtherTerminator))) None None]
     \<and> OrderedMap_get (ending_refs st') (Val 20 (Instruction CallInst)) = Some 1
     \<and> OrderedMap_get (ending_refs st') (Val 1 Argument) = None"
proof -
  have h1: "inst_val example_call \<in> may_throw example_tracker"
    by (simp add: example_call_def example_tracker_def)
  have h2: "OrderedMap_inv (ending_refs example_scan_state)"
    by (simp add: example_scan_state_def OrderedMap_inv_def)
  from flush_before_may_throw[OF h1 h2, of example_rest]
  obtain st' where t:
    "flush_step example_tracker example_call example_rest example_scan_state = Inr st'"
    "increfs st' = increfs example_scan_state
        @ surplus_increfs example_tracker (getNextNode example_rest) (ending_refs example_scan_state)"
    "\<forall>p \<in> set (ending_refs example_scan_state).
       OrderedMap_get (ending_refs st') (fst p) =
         (if needed_refs example_tracker (fst p) = 0 then None
          else Some (needed_refs example_tracker (fst p)))"
    by blast
  from t(2) have i: "increfs st' =
         [RefOp (Val 20 (Instruction CallInst)) False 2 (Some (Val 22 (Instruction OtherTerminator)))
            None None,
          RefOp (Val 1 Argument) False 2 (Some (Val 22 (Instruction OtherTerminator))) None None]"
    by (simp add: surplus_increfs_def example_scan_state_def example_rest_def getNextNode_def
        needed_refs_def vars_lookup_def example_tracker_def)
  from t(3) have a: "OrderedMap_get (ending_refs st') (Val 20 (Instruction CallInst)) = Some 1"
    and b: "OrderedMap_get (ending_refs st') (Val 1 Argument) = None"
    by (simp_all add: example_scan_state_def needed_refs_def vars_lookup_def example_tracker_def)
  show ?thesis
    by (intro exI[of _ st'] conjI t(1) i a b)
qed

subsection \<open>The fixup record of a call that may throw\<close>

lemma fixup_loop_result:
  assumes "tracked_keys rt er"
  shows "fixup_loop rt er to_dec = Inr (to_dec @ expand_refs er)"
  using assms
proof (induction er arbitrary: to_dec)
  case Nil
  then show ?case by (simp add: expand_refs_def)
next
  case (Cons p ps)
  from Cons.prems have rest: "tracked_keys rt ps"
    and here: "0 < snd p \<longrightarrow> vars_count rt (fst p)"
    by (simp_all add: tracked_keys_def)
  have "expand_refs (p # ps) = replicate (nat (snd p)) (fst p) @ expand_refs ps"
    by (simp add: expand_refs_def)
  with here Cons.IH[OF rest] show ?case by simp
qed

lemma fixup_step_result:
  assumes "inst_val I \<in> may_throw rt" "tracked_keys rt (ending_refs st)"
  shows "fixup_step rt I st =
     Inr (if expand_refs (ending_refs st) = [] then st
          else st\<lparr>cxx_fixups := cxx_fixups st @
                 [\<lparr>fixup_inst = inst_val I, to_decref = expand_refs (ending_refs st)\<rparr>]\<rparr>)"
  using assms(1) fixup_loop_result[OF assms(2), of "[]"]
  by (simp add: fixup_step_def)

lemma count_list_replicate:
  "count_list (replicate n x) v = (if x = v then n else 0)"
  by (induction n) auto

lemma count_list_expand_absent:
  "v \<notin> fst ` set er \<Longrightarrow> count_list (expand_refs er) v = 0"
  by (induction er) (auto simp: expand_refs_def count_list_replicate)

lemma count_list_expand:
  assumes "OrderedMap_inv er"
  shows "count_list (expand_refs er) v = nat (OrderedMap_at er v)"
  using assms
proof (induction er)
  case Nil
  then show ?case by (simp add: expand_refs_def OrderedMap_at_def)
next
  case (Cons p ps)
  from Cons.prems have inv: "OrderedMap_inv ps" and fresh: "fst p \<notin> fst ` set ps"
    by (simp_all add: OrderedMap_inv_def)
  have split: "count_list (expand_refs (p # ps)) v
      = (if fst p = v then nat (snd p) else 0) + count_list (expand_refs ps) v"
    by (simp add: expand_refs_def count_list_replicate)
  show ?case
  proof (cases "fst p = v")
    case True
    with fresh have "count_list (expand_refs ps) v = 0"
      by (intro count_list_expand_absent) simp
    with True split show ?thesis
      by (cases p) (simp add: OrderedMap_at_def)
  next
    case False
    with split Cons.IH[OF inv] show ?thesis
      by (cases p) (simp add: OrderedMap_at_def)
  qed
qed

lemma define_step_fixups:
  "define_step rt insts I rest st = Inr st1 \<Longrightarrow> cxx_fixups st1 = cxx_fixups st"
  by (auto simp: define_step_def Let_def then_do_Inr_iff split: if_splits)

lemma flush_loop_fixups:
  "cxx_fixups (fst (flush_loop rt nxt ks (st, te))) = cxx_fixups st"
  by (induction ks arbitrary: st te) (simp_all add: Let_def)

lemma flush_step_fixups:
  "flush_step rt I rest st = Inr st2 \<Longrightarrow> cxx_fixups st2 = cxx_fixups st"
proof -
  assume r: "flush_step rt I rest st = Inr st2"
  show ?thesis
  proof (cases "inst_val I \<in> may_throw rt")
    case False
    with r show ?thesis by (simp add: flush_step_def)
  next
    case True
    obtain sa te where l: "flush_loop rt (getNextNode rest) (map fst (ending_refs st)) (st, [])
        = (sa, te)"
      by (cases "flush_loop rt (getNextNode rest) (map fst (ending_refs st)) (st, [])")
    from flush_loop_fixups[of rt "getNextNode rest" "map fst (ending_refs st)" st "[]"] l
    have "cxx_fixups sa = cxx_fixups st" by simp
    with r True l show ?thesis
      by (auto simp: flush_step_def then_do_Inr_iff simp del: flush_loop.simps)
  qed
qed

lemma last_use_loop_fixups:
  "last_use_loop rt bb insts I rest nc nt st = Inr st3 \<Longrightarrow> cxx_fixups st3 = cxx_fixups st"
proof (induction nt arbitrary: st)
  case Nil
  then show ?case by simp
next
  case (Cons p ps)
  from Cons.prems show ?case
    by (auto simp: Let_def then_do_Inr_iff split: if_splits dest!: Cons.IH)
qed

lemma scan_to_fixup_fixups:
  assumes "scan_to_fixup rt bb insts I rest st1 = Inr (st3, nc, nt)"
  shows "cxx_fixups st3 = cxx_fixups st1"
  using assms
  by (auto simp: scan_to_fixup_def then_do_Inr_iff
      dest!: flush_step_fixups last_use_loop_fixups)

lemma owned_is_tracked: "reftype (vars_lookup rt v) = OWNED \<Longrightarrow> vars_count rt v"
  by (auto simp: vars_lookup_def vars_count_def split: option.splits)

lemma owned_where_positive_tracked:
  "owned_where_positive rt er \<Longrightarrow> tracked_keys rt er"
  by (auto simp: owned_where_positive_def tracked_keys_def owned_is_tracked)

lemma OrderedMap_index_inv: "OrderedMap_inv m \<Longrightarrow> OrderedMap_inv (OrderedMap_index m k)"
  by (auto simp: OrderedMap_inv_def OrderedMap_index_def OrderedMap_count_def
      map_of_eq_None_iff)

lemma OrderedMap_erase_inv:
  "OrderedMap_erase m k = Inr m' \<Longrightarrow> OrderedMap_inv m \<Longrightarrow> OrderedMap_inv m'"
  by (auto simp: OrderedMap_erase_def then_do_Inr_iff OrderedMap_inv_def distinct_map_filter)

lemma define_step_inv:
  assumes "define_step rt insts I rest st = Inr st1" "OrderedMap_inv (ending_refs st)"
  shows "OrderedMap_inv (ending_refs st1)"
proof (cases "\<not> isa_opcode InvokeInst (inst_val I) \<and> vars_count rt (inst_val I)")
  case False
  with assms show ?thesis by (auto simp: define_step_def Let_def)
next
  case True
  let ?er = "OrderedMap_index (ending_refs st) (inst_val I)"
  have inv: "OrderedMap_inv ?er"
    using assms(2) by (rule OrderedMap_index_inv)
  from assms(1) True
  have er: "OrderedMap_erase ?er (inst_val I) = Inr (ending_refs st1)"
    by (auto simp: define_step_def Let_def then_do_Inr_iff split: if_splits)
  from er inv show ?thesis
    by (rule OrderedMap_erase_inv)
qed

lemma OrderedMap_store_set:
  "set (OrderedMap_store m k c) \<subseteq> insert (k, c) (set m)"
  by (induction m) auto

lemma last_use_loop_owned:
  assumes "last_use_loop rt bb insts I rest nc nt st = Inr st3"
    "owned_where_positive rt (ending_refs st)"
  shows "owned_where_positive rt (ending_refs st3)"
  using assms
proof (induction nt arbitrary: st)
  case Nil
  then show ?case by simp
next
  case (Cons p ps)
  show ?case
  proof (cases "snd p > SmallOrderedMap_get nc (fst p)
                  \<and> reftype (vars_lookup rt (fst p)) = OWNED")
    case False
    with Cons.prems(1) have "last_use_loop rt bb insts I rest nc ps st = Inr st3"
      by auto
    from Cons.IH[OF this Cons.prems(2)] show ?thesis .
  next
    case True
    let ?er = "OrderedMap_index (ending_refs st) (fst p)"
    have idx: "owned_where_positive rt ?er"
      using Cons.prems(2) by (auto simp: owned_where_positive_def OrderedMap_index_def)
    show ?thesis
    proof (cases "OrderedMap_at ?er (fst p) = 0")
      case False
      with True Cons.prems(1)
      have "last_use_loop rt bb insts I rest nc ps (st\<lparr>ending_refs := ?er\<rparr>) = Inr st3"
        by (simp add: Let_def)
      from Cons.IH[OF this] idx show ?thesis by simp
    next
      case zero: True
      with True Cons.prems(1) obtain ds where
        "last_use_loop rt bb insts I rest nc ps
           (st\<lparr>ending_refs := OrderedMap_store ?er (fst p) 1, decrefs := ds\<rparr>) = Inr st3"
        by (auto simp: Let_def then_do_Inr_iff)
      moreover have "owned_where_positive rt (OrderedMap_store ?er (fst p) 1)"
        using idx True OrderedMap_store_set[of ?er "fst p" 1]
        by (auto simp: owned_where_positive_def)
      ultimately show ?thesis
        using Cons.IH by simp
    qed
  qed
qed

lemma scan_to_fixup_tracked:
  assumes "inst_val I \<in> may_throw rt" "OrderedMap_inv (ending_refs st1)"
    "scan_to_fixup rt bb insts I rest st1 = Inr (st3, nc, nt)"
  shows "tracked_keys rt (ending_refs st3)"
proof -
  let ?st2 = "st1\<lparr>increfs := increfs st1 @ surplus_increfs rt (getNextNode rest) (ending_refs st1),
            ending_refs := map (\<lambda>p. (fst p, 1))
              (filter (\<lambda>p. reftype (vars_lookup rt (fst p)) = OWNED) (ending_refs st1))\<rparr>"
  have fl: "flush_step rt I rest st1 = Inr ?st2"
    using assms(1,2) by (rule flush_step_result)
  have o2: "owned_where_positive rt (ending_refs ?st2)"
    by (auto simp: owned_where_positive_def)
  from assms(3) fl have "last_use_loop rt bb insts I rest nc nt ?st2 = Inr st3"
    by (auto simp: scan_to_fixup_def then_do_Inr_iff)
  from last_use_loop_owned[OF this o2] show ?thesis
    by (rule owned_where_positive_tracked)
qed

text \<open>
  Claim C3. Let the scan reach an instruction that may throw and is no phi, with
  \<^verbatim>\<open>ending_refs\<close> keeping the invariant of \<^verbatim>\<open>OrderedMap\<close>, and let \<open>st3\<close> be the state
  when the last uses have been dealt with (line 1100). Then the scan of the
  instruction returns (the assertion of line 1108 cannot fail), and the fixup records
  are those before the instruction and, unless it is empty, one record for the
  instruction whose values are the entries of \<^verbatim>\<open>ending_refs\<close> of \<open>st3\<close>, each as
  often as its count says, in the order of the map: every value occurs in the record
  as often as its count. When no value is held no record is added. The references
  the instruction steals are added to \<^verbatim>\<open>ending_refs\<close> after the record is taken.
\<close>

theorem fixup_record_is_ending_refs:
  assumes "inst_val I \<in> may_throw rt"
    and "\<not> isa_opcode PHINode (inst_val I)"
    and "OrderedMap_inv (ending_refs st)"
    and "define_step rt insts I rest st = Inr st1"
    and "scan_to_fixup rt bb insts I rest st1 = Inr (st3, num_consumed_by_inst, num_times_as_op)"
  shows "\<exists>st'. scanInst rt bb insts I rest st = Inr st'
         \<and> cxx_fixups st' = cxx_fixups st @
              (if expand_refs (ending_refs st3) = [] then []
               else [\<lparr>fixup_inst = inst_val I, to_decref = expand_refs (ending_refs st3)\<rparr>])
         \<and> expand_refs (ending_refs st3)
              = concat (map (\<lambda>p. replicate (nat (snd p)) (fst p)) (ending_refs st3))
         \<and> (OrderedMap_inv (ending_refs st3) \<longrightarrow>
               (\<forall>v. count_list (expand_refs (ending_refs st3)) v
                      = nat (OrderedMap_at (ending_refs st3) v)))
         \<and> ending_refs st' =
               stolen_loop num_consumed_by_inst num_times_as_op (ending_refs st3)"
proof -
  let ?st4 = "if expand_refs (ending_refs st3) = [] then st3
          else st3\<lparr>cxx_fixups := cxx_fixups st3 @
                 [\<lparr>fixup_inst = inst_val I, to_decref = expand_refs (ending_refs st3)\<rparr>]\<rparr>"
  let ?st' = "?st4\<lparr>ending_refs :=
                stolen_loop num_consumed_by_inst num_times_as_op (ending_refs ?st4)\<rparr>"
  have inv1: "OrderedMap_inv (ending_refs st1)"
    using assms(4,3) by (rule define_step_inv)
  have tr: "tracked_keys rt (ending_refs st3)"
    using assms(1) inv1 assms(5) by (rule scan_to_fixup_tracked)
  have fx: "fixup_step rt I st3 = Inr ?st4"
    using assms(1) tr by (rule fixup_step_result)
  have run: "scanInst rt bb insts I rest st = Inr ?st'"
    using assms(2,4,5) fx by (simp add: scanInst_def)
  have same: "cxx_fixups st3 = cxx_fixups st"
    using scan_to_fixup_fixups[OF assms(5)] define_step_fixups[OF assms(4)] by simp
  have fixups: "cxx_fixups ?st' = cxx_fixups st @
              (if expand_refs (ending_refs st3) = [] then []
               else [\<lparr>fixup_inst = inst_val I, to_decref = expand_refs (ending_refs st3)\<rparr>])"
    using same by simp
  have ex: "expand_refs (ending_refs st3)
              = concat (map (\<lambda>p. replicate (nat (snd p)) (fst p)) (ending_refs st3))"
    by (simp add: expand_refs_def)
  have cnt: "OrderedMap_inv (ending_refs st3) \<longrightarrow>
               (\<forall>v. count_list (expand_refs (ending_refs st3)) v
                      = nat (OrderedMap_at (ending_refs st3) v))"
    by (simp add: count_list_expand)
  have er: "ending_refs ?st' =
               stolen_loop num_consumed_by_inst num_times_as_op (ending_refs st3)"
    by simp
  show ?thesis
    by (intro exI[of _ ?st'] conjI run fixups ex cnt er)
qed

lemma example_define:
  "define_step example_tracker (example_call # example_rest) example_call example_rest
     example_scan_state = Inr example_scan_state"
  by (simp add: define_step_def example_call_def example_tracker_def vars_count_def)

lemma example_flush:
  "flush_step example_tracker example_call example_rest example_scan_state
     = Inr (example_at_fixup\<lparr>ending_refs := [(Val 20 (Instruction CallInst), 1)]\<rparr>)"
  by (simp add: flush_step_def example_call_def example_tracker_def example_scan_state_def
      example_rest_def getNextNode_def needed_refs_def vars_lookup_def OrderedMap_at_def
      OrderedMap_erase_def OrderedMap_count_def example_at_fixup_def Let_def)

lemma example_counts:
  "count_operands example_tracker example_call
     = Inr ([], [(Val 20 (Instruction CallInst), 1), (Val 1 Argument, 1)])"
  by (simp add: count_operands_def find_list_def example_tracker_def example_call_def
      vars_count_def)

lemma example_to_fixup:
  "scan_to_fixup example_tracker 10 (example_call # example_rest) example_call example_rest
     example_scan_state
   = Inr (example_at_fixup, [], [(Val 20 (Instruction CallInst), 1), (Val 1 Argument, 1)])"
  unfolding scan_to_fixup_def example_flush example_counts
  by (simp add: example_at_fixup_def vars_lookup_def example_tracker_def OrderedMap_index_def
      OrderedMap_count_def OrderedMap_at_def Let_def)

theorem fixup_record_is_ending_refs_witness:
  "\<exists>st'. scanInst example_tracker 10 (example_call # example_rest) example_call example_rest
           example_scan_state = Inr st'
     \<and> cxx_fixups st' =
         [\<lparr>fixup_inst = Val 21 (Instruction CallInst),
           to_decref = [Val 20 (Instruction CallInst)]\<rparr>]
     \<and> ending_refs st' = [(Val 20 (Instruction CallInst), 1)]"
proof -
  have h1: "inst_val example_call \<in> may_throw example_tracker"
    by (simp add: example_call_def example_tracker_def)
  have h2: "\<not> isa_opcode PHINode (inst_val example_call)"
    by (simp add: example_call_def isa_opcode_def)
  have h3: "OrderedMap_inv (ending_refs example_scan_state)"
    by (simp add: OrderedMap_inv_def example_scan_state_def)
  from fixup_record_is_ending_refs[OF h1 h2 h3 example_define example_to_fixup]
  obtain st' where t:
    "scanInst example_tracker 10 (example_call # example_rest) example_call example_rest
       example_scan_state = Inr st'"
    "cxx_fixups st' = cxx_fixups example_scan_state @
       (if expand_refs (ending_refs example_at_fixup) = [] then []
        else [\<lparr>fixup_inst = inst_val example_call,
                to_decref = expand_refs (ending_refs example_at_fixup)\<rparr>])"
    "ending_refs st' = stolen_loop [] [(Val 20 (Instruction CallInst), 1), (Val 1 Argument, 1)]
       (ending_refs example_at_fixup)"
    by blast
  from t(2) have f: "cxx_fixups st' =
         [\<lparr>fixup_inst = Val 21 (Instruction CallInst),
           to_decref = [Val 20 (Instruction CallInst)]\<rparr>]"
    by (simp add: expand_refs_def example_at_fixup_def example_scan_state_def example_call_def)
  from t(3) have e: "ending_refs st' = [(Val 20 (Instruction CallInst), 1)]"
    by (simp add: example_at_fixup_def)
  show ?thesis
    by (intro exI[of _ st'] conjI t(1) f e)
qed

end
